theory Spec2Isabelle
  imports Complex_Main "HOL-Library.Product_Lexorder"
begin

section \<open>Configuration and strings\<close>

text \<open>
  The constants that backend.py imports from \<^verbatim>\<open>env\<close> and \<^verbatim>\<open>config\<close>. Those modules are not
  among the sources, so the values are parameters of the model.
\<close>

record config =
  TMP_DIR :: string
  INGEST_DIR :: string
  USE_BOOK_TITLE :: bool
  CUSTOM_SCRIPT :: string
  MAX_CONCURRENT_DOWNLOADS :: nat

text \<open>
  \<^verbatim>\<open>str.isalnum\<close> and the whitespace that \<^verbatim>\<open>str.rstrip()\<close> removes, on ASCII characters
  (a HOL \<open>char\<close> is one byte; code points beyond ASCII are not modelled).
\<close>

definition isalnum :: "char \<Rightarrow> bool" where
  "isalnum c =
     (let n = (of_char c :: nat)
      in (48 \<le> n \<and> n \<le> 57) \<or> (65 \<le> n \<and> n \<le> 90) \<or> (97 \<le> n \<and> n \<le> 122))"

definition isspace :: "char \<Rightarrow> bool" where
  "isspace c =
     (let n = (of_char c :: nat) in (9 \<le> n \<and> n \<le> 13) \<or> (28 \<le> n \<and> n \<le> 32))"

definition rstrip :: "string \<Rightarrow> string" where
  "rstrip s = rev (dropWhile isspace (rev s))"

definition keepcharacters :: "char list" where
  "keepcharacters = [CHR '' '', CHR ''.'', CHR ''_'']"

text \<open>backend.py, \<^verbatim>\<open>_sanitize_filename\<close>.\<close>

definition sanitize_filename :: "string \<Rightarrow> string" where
  "sanitize_filename filename =
     rstrip (filter (\<lambda>c. isalnum c \<or> c \<in> set keepcharacters) filename)"

text \<open>
  The paths of pathlib (\<^verbatim>\<open>PurePosixPath\<close>), as far as backend.py uses them: a path is its
  root (empty, one slash or two) and the list of its components. \<^verbatim>\<open>split_sep []\<close> is
  \<^verbatim>\<open>str.split('/')\<close>, \<^verbatim>\<open>splitroot\<close> and \<^verbatim>\<open>parse_parts\<close> are pathlib's functions of these names
  for one string on a POSIX system (empty components and \<^verbatim>\<open>.\<close> are dropped, \<^verbatim>\<open>..\<close> is
  kept), \<^verbatim>\<open>truediv\<close> is the operator \<^verbatim>\<open>/\<close> (an absolute right operand replaces the left
  one) and \<^verbatim>\<open>str_path\<close> is \<^verbatim>\<open>str\<close> of a path.
\<close>

fun split_sep :: "string \<Rightarrow> string \<Rightarrow> string list" where
  "split_sep acc [] = [rev acc]"
| "split_sep acc (c # cs) =
     (if c = CHR ''/'' then rev acc # split_sep [] cs else split_sep (c # acc) cs)"

definition splitroot :: "string \<Rightarrow> string \<times> string" where
  "splitroot part =
     (if part \<noteq> [] \<and> hd part = CHR ''/''
      then (let stripped_part = dropWhile (\<lambda>c. c = CHR ''/'') part
            in (if length part - length stripped_part = 2 then ''//'' else ''/'',
                stripped_part))
      else ([], part))"

definition parse_parts :: "string \<Rightarrow> string \<times> string list" where
  "parse_parts part =
     (let (root, rel) = splitroot part
      in (root, filter (\<lambda>x. x \<noteq> [] \<and> x \<noteq> ''.'') (split_sep [] rel)))"

definition truediv :: "string \<times> string list \<Rightarrow> string \<Rightarrow> string \<times> string list" where
  "truediv p key =
     (let (root2, parts2) = parse_parts key
      in if root2 \<noteq> [] then (root2, parts2) else (fst p, snd p @ parts2))"

fun sep_join :: "string list \<Rightarrow> string" where
  "sep_join [] = []"
| "sep_join [x] = x"
| "sep_join (x # y # ys) = x @ ''/'' @ sep_join (y # ys)"

definition str_path :: "string \<times> string list \<Rightarrow> string" where
  "str_path p = (let s = fst p @ sep_join (snd p) in if s = [] then ''.'' else s)"

text \<open>
  \<^verbatim>\<open>str(directory / name)\<close>, where \<open>d\<close> is the text the path \<^verbatim>\<open>directory\<close> was built from.
  Files are identified with the text of their path.
\<close>

definition path_join :: "string \<Rightarrow> string \<Rightarrow> string" where
  "path_join d n = str_path (truediv (parse_parts d) n)"

text \<open>The text an f-string puts for an optional string: \<^verbatim>\<open>None\<close> prints as \<^verbatim>\<open>None\<close>.\<close>

definition fstr :: "string option \<Rightarrow> string" where
  "fstr x = (case x of None \<Rightarrow> ''None'' | Some s \<Rightarrow> s)"

section \<open>The job record store\<close>

datatype QueueStatus = QUEUED | PROCESSING | DOWNLOADING | AVAILABLE | ERROR | CANCELLED

text \<open>
  Modelled from the spec: models.py (\<^verbatim>\<open>BookInfo\<close>, \<^verbatim>\<open>QueueStatus\<close>, \<^verbatim>\<open>book_queue\<close>) is not
  among the sources. One record per job as in section 3 of the specification; the fields
  that backend.py reads or writes (\<^verbatim>\<open>title\<close>, \<^verbatim>\<open>format\<close>, \<^verbatim>\<open>download_path\<close>) keep the
  names backend.py uses.
\<close>

record JobRecord =
  title :: string
  format :: "string option"
  status :: QueueStatus
  priority :: int
  insertionSeq :: nat
  progress :: real
  download_path :: "string option"

text \<open>
  Modelled from the spec: the store is a table keyed by job id (a Python dict, kept here
  in insertion order) together with the counter that numbers the enqueues.
\<close>

record book_queue =
  jobs :: "(string \<times> JobRecord) list"
  next_seq :: nat

definition empty_queue :: book_queue where
  "empty_queue = \<lparr>jobs = [], next_seq = 0\<rparr>"

definition modify :: "string \<Rightarrow> (JobRecord \<Rightarrow> JobRecord) \<Rightarrow> book_queue \<Rightarrow> book_queue" where
  "modify book_id f q = q\<lparr>jobs := map (\<lambda>(k, r). (k, if k = book_id then f r else r)) (jobs q)\<rparr>"

text \<open>Modelled from the spec: \<^verbatim>\<open>get(id)\<close>, the lookup \<^verbatim>\<open>book_queue._book_data[book_id]\<close>.\<close>

definition book_data :: "book_queue \<Rightarrow> string \<Rightarrow> JobRecord option" where
  "book_data q book_id = map_of (jobs q) book_id"

text \<open>Modelled from the spec: the status of a job, \<^verbatim>\<open>None\<close> for an unknown id.\<close>

definition get_status_for_book :: "book_queue \<Rightarrow> string \<Rightarrow> QueueStatus option" where
  "get_status_for_book q book_id = map_option status (book_data q book_id)"

text \<open>
  Modelled from the spec: \<^verbatim>\<open>setStatus\<close>, \<^verbatim>\<open>setProgress\<close>, \<^verbatim>\<open>setDownloadPath\<close>. Each writes
  one field of the record of the given id and nothing else; an unknown id is left alone.
\<close>

definition update_status :: "string \<Rightarrow> QueueStatus \<Rightarrow> book_queue \<Rightarrow> book_queue" where
  "update_status book_id st q = modify book_id (\<lambda>r. r\<lparr>status := st\<rparr>) q"

definition update_progress :: "string \<Rightarrow> real \<Rightarrow> book_queue \<Rightarrow> book_queue" where
  "update_progress book_id p q = modify book_id (\<lambda>r. r\<lparr>progress := p\<rparr>) q"

definition update_download_path :: "string \<Rightarrow> string \<Rightarrow> book_queue \<Rightarrow> book_queue" where
  "update_download_path book_id p q = modify book_id (\<lambda>r. r\<lparr>download_path := Some p\<rparr>) q"

text \<open>
  Modelled from the spec: \<^verbatim>\<open>upsert\<close> (\<^verbatim>\<open>book_queue.add\<close>), sections 3 and 4.1. Enqueueing an
  id that is QUEUED, PROCESSING or DOWNLOADING is a no-op; otherwise the job gets a fresh
  record: status QUEUED, the given priority, the next insertion number, progress 0 and no
  download path.
\<close>

definition fresh_job :: "string \<Rightarrow> string option \<Rightarrow> int \<Rightarrow> nat \<Rightarrow> JobRecord" where
  "fresh_job ttl fmt prio n =
     \<lparr>title = ttl, format = fmt, status = QUEUED, priority = prio, insertionSeq = n,
      progress = 0, download_path = None\<rparr>"

definition add :: "string \<Rightarrow> string \<Rightarrow> string option \<Rightarrow> int \<Rightarrow> book_queue \<Rightarrow> book_queue" where
  "add book_id ttl fmt prio q =
     (case book_data q book_id of
        None \<Rightarrow>
          \<lparr>jobs = jobs q @ [(book_id, fresh_job ttl fmt prio (next_seq q))],
           next_seq = Suc (next_seq q)\<rparr>
      | Some r \<Rightarrow>
          if status r = QUEUED \<or> status r = PROCESSING \<or> status r = DOWNLOADING then q
          else (modify book_id (\<lambda>old. fresh_job ttl fmt prio (next_seq q)) q)
                 \<lparr>next_seq := Suc (next_seq q)\<rparr>)"

text \<open>
  Modelled from the spec: \<^verbatim>\<open>nextRunnable\<close> (\<^verbatim>\<open>book_queue.get_next\<close>), section 4.2. Among
  the QUEUED records it selects the one with the least priority, and among those the
  least insertion number; it makes that job PROCESSING and returns its id. With no
  QUEUED job it returns nothing.
\<close>

definition job_key :: "string \<times> JobRecord \<Rightarrow> int \<times> nat" where
  "job_key x = (priority (snd x), insertionSeq (snd x))"

fun min_job :: "(string \<times> JobRecord) list \<Rightarrow> (string \<times> JobRecord) option" where
  "min_job [] = None"
| "min_job (x # xs) =
     (case min_job xs of
        None \<Rightarrow> Some x
      | Some y \<Rightarrow> if job_key x \<le> job_key y then Some x else Some y)"

definition queued :: "book_queue \<Rightarrow> (string \<times> JobRecord) list" where
  "queued q = filter (\<lambda>x. status (snd x) = QUEUED) (jobs q)"

definition get_next :: "book_queue \<Rightarrow> (string \<times> book_queue) option" where
  "get_next q =
     (case min_job (queued q) of
        None \<Rightarrow> None
      | Some x \<Rightarrow> Some (fst x, update_status (fst x) PROCESSING q))"

text \<open>backend.py, \<^verbatim>\<open>update_download_progress\<close>.\<close>

definition update_download_progress :: "string \<Rightarrow> real \<Rightarrow> book_queue \<Rightarrow> book_queue" where
  "update_download_progress book_id p q =
     (let current_status = get_status_for_book q book_id;
          q1 = (if current_status = Some PROCESSING
                then update_status book_id DOWNLOADING q else q)
      in update_progress book_id p q1)"

text \<open>
  The name of the staging file and the three paths of
  \<^verbatim>\<open>_download_book_with_cancellation\<close> (lines 139 to 144, 178 and 179).
\<close>

definition book_name_of :: "config \<Rightarrow> string \<Rightarrow> JobRecord \<Rightarrow> string" where
  "book_name_of cfg book_id book_info =
     (if USE_BOOK_TITLE cfg then sanitize_filename (title book_info) else book_id)
       @ ''.'' @ fstr (format book_info)"

definition book_path_of :: "config \<Rightarrow> string \<Rightarrow> JobRecord \<Rightarrow> string" where
  "book_path_of cfg book_id book_info =
     path_join (TMP_DIR cfg) (book_name_of cfg book_id book_info)"

definition intermediate_path_of :: "config \<Rightarrow> string \<Rightarrow> string" where
  "intermediate_path_of cfg book_id = path_join (INGEST_DIR cfg) (book_id @ ''.crdownload'')"

definition final_path_of :: "config \<Rightarrow> string \<Rightarrow> JobRecord \<Rightarrow> string" where
  "final_path_of cfg book_id book_info =
     path_join (INGEST_DIR cfg) (book_name_of cfg book_id book_info)"

section \<open>Files, log and the state a worker runs in\<close>

text \<open>
  A file is complete, or it is the partial result of a write or copy that has not
  finished (or was abandoned).
\<close>

datatype content = Complete string | Partial string

definition truncated :: "content \<Rightarrow> content" where
  "truncated c = (case c of Complete d \<Rightarrow> Partial d | Partial d \<Rightarrow> Partial d)"


datatype log_entry = INFO string | DEBUG string | ERROR_TRACE string

datatype exn = KeyError string | UnboundLocalError string | TypeError string | OSError string
  | FileNotFoundError string | Exception string

text \<open>
  \<^verbatim>\<open>str(e)\<close>, the text the handlers log. A \<^verbatim>\<open>KeyError\<close> prints the \<^verbatim>\<open>repr\<close> of its key (the key
  between quotes, for a key without quotes and escapes) and an \<^verbatim>\<open>Exception\<close> its argument.
  The text of the other exceptions is chosen by the interpreter and the operating system;
  their payload here names the variable or the path the exception is about and stands for
  that text.
\<close>

definition exn_text :: "exn \<Rightarrow> string" where
  "exn_text x = (case x of KeyError s \<Rightarrow> [CHR 0x27] @ s @ [CHR 0x27]
     | UnboundLocalError s \<Rightarrow> s | TypeError s \<Rightarrow> s | OSError s \<Rightarrow> s
     | FileNotFoundError s \<Rightarrow> s | Exception s \<Rightarrow> s)"

text \<open>
  The state: the job store, the file system (path to content), the log, and the earlier
  (store, files) pairs, latest first. Every write to the store or to the file system
  pushes the pair it replaces, so that \<open>snapshots\<close> lists every state an observer could
  have seen.
\<close>

record world =
  queue :: book_queue
  files :: "string \<Rightarrow> content option"
  log :: "log_entry list"
  past :: "(book_queue \<times> (string \<Rightarrow> content option)) list"

definition snapshots :: "world \<Rightarrow> (book_queue \<times> (string \<Rightarrow> content option)) list" where
  "snapshots w = (queue w, files w) # past w"

definition on_queue :: "(book_queue \<Rightarrow> book_queue) \<Rightarrow> world \<Rightarrow> world" where
  "on_queue f w = w\<lparr>past := (queue w, files w) # past w, queue := f (queue w)\<rparr>"

definition on_files ::
  "((string \<Rightarrow> content option) \<Rightarrow> (string \<Rightarrow> content option)) \<Rightarrow> world \<Rightarrow> world" where
  "on_files f w = w\<lparr>past := (queue w, files w) # past w, files := f (files w)\<rparr>"

definition logger :: "log_entry \<Rightarrow> world \<Rightarrow> world" where
  "logger entry w = w\<lparr>log := log w @ [entry]\<rparr>"

text \<open>
  What a worker run does not decide itself: the value of \<^verbatim>\<open>cancel_flag.is_set()\<close> at each
  check (indexed by the line of backend.py that makes the check: 132, 147, 157, 168, 195,
  206 and 277), what the fetch collaborator \<^verbatim>\<open>book_manager.download_book\<close> does (the
  progress values it reports, the file it leaves at the destination, and whether it
  returns a success flag or raises), what \<^verbatim>\<open>subprocess.run\<close> does with the custom script,
  and which of the file operations of the publish step fail.
\<close>

datatype fetch_result = Fetched bool | FetchRaised

datatype io_result = IoDone | IoFailed | IoFailedPartial

datatype script_result = Exited int | NotStarted

record env =
  cancel_seen :: "nat \<Rightarrow> bool"
  fetch_progress :: "real list"
  fetch_file :: "content option"
  fetch_result :: fetch_result
  script_result :: script_result
  script_file :: "content option \<Rightarrow> content option"
  move_first :: io_result
  move_second :: io_result
  copyfile_result :: io_result
  remove_fails :: bool
  rename_fails :: bool

text \<open>
  Modelled from the spec: the fetch collaborator of section 6 (book_manager.py is not
  among the sources). It calls the progress callback zero or more times, writes the
  destination file (first partially, then in the form it leaves it), and returns its
  success flag or raises. The callback is the lambda of line 151.
\<close>

definition download_book :: "env \<Rightarrow> string \<Rightarrow> string \<Rightarrow> world \<Rightarrow> (exn + bool) \<times> world" where
  "download_book e book_id book_path w =
     (let w1 = foldl (\<lambda>v p. on_queue (update_download_progress book_id p) v) w
                 (fetch_progress e);
          w2 = (case fetch_file e of
                  None \<Rightarrow> w1
                | Some c \<Rightarrow> on_files (\<lambda>f. f(book_path \<mapsto> c))
                             (on_files (\<lambda>f. f(book_path \<mapsto> truncated c)) w1))
      in case fetch_result e of
           FetchRaised \<Rightarrow> (Inl (Exception ''download_book''), w2)
         | Fetched success \<Rightarrow> (Inr success, w2))"

text \<open>
  Lines 174 to 176: \<^verbatim>\<open>subprocess.run\<close> without \<^verbatim>\<open>check\<close> returns whatever the exit status
  of the script is, and raises when the script cannot be started. The script may
  rewrite or remove the file it is given.
\<close>

definition run_custom_script :: "config \<Rightarrow> env \<Rightarrow> string \<Rightarrow> world \<Rightarrow> (exn + unit) \<times> world" where
  "run_custom_script cfg e book_path w =
     (if CUSTOM_SCRIPT cfg \<noteq> [] then
        (let w1 = logger (INFO (''Running custom script: '' @ CUSTOM_SCRIPT cfg)) w
         in case script_result e of
              NotStarted \<Rightarrow> (Inl (OSError (CUSTOM_SCRIPT cfg)), w1)
            | Exited rc \<Rightarrow>
                (Inr (), on_files (\<lambda>f. f(book_path := script_file e (f book_path))) w1))
      else (Inr (), w))"

text \<open>
  The file operations, for a source and a destination that differ. A move or a copy
  that is not a plain rename writes the destination piece by piece, so the destination
  is seen partial before it is seen whole; a failed one may leave the partial file
  behind. \<^verbatim>\<open>os.rename\<close> replaces the destination in one step.
\<close>

definition shutil_move :: "io_result \<Rightarrow> string \<Rightarrow> string \<Rightarrow> world \<Rightarrow> (exn + unit) \<times> world" where
  "shutil_move r src dst w =
     (case files w src of
        None \<Rightarrow> (Inl (FileNotFoundError src), w)
      | Some c \<Rightarrow>
          (case r of
             IoFailed \<Rightarrow> (Inl (OSError src), w)
           | IoFailedPartial \<Rightarrow> (Inl (OSError src), on_files (\<lambda>f. f(dst \<mapsto> truncated c)) w)
           | IoDone \<Rightarrow> (Inr (), on_files (\<lambda>f. (f(dst \<mapsto> c))(src := None))
                                  (on_files (\<lambda>f. f(dst \<mapsto> truncated c)) w))))"

definition shutil_copyfile :: "io_result \<Rightarrow> string \<Rightarrow> string \<Rightarrow> world \<Rightarrow> (exn + unit) \<times> world" where
  "shutil_copyfile r src dst w =
     (case files w src of
        None \<Rightarrow> (Inl (FileNotFoundError src), w)
      | Some c \<Rightarrow>
          (case r of
             IoFailed \<Rightarrow> (Inl (OSError src), w)
           | IoFailedPartial \<Rightarrow> (Inl (OSError src), on_files (\<lambda>f. f(dst \<mapsto> truncated c)) w)
           | IoDone \<Rightarrow> (Inr (), on_files (\<lambda>f. f(dst \<mapsto> c))
                                  (on_files (\<lambda>f. f(dst \<mapsto> truncated c)) w))))"

definition os_remove :: "env \<Rightarrow> string \<Rightarrow> world \<Rightarrow> (exn + unit) \<times> world" where
  "os_remove e p w =
     (case files w p of
        None \<Rightarrow> (Inl (FileNotFoundError p), w)
      | Some c \<Rightarrow> if remove_fails e then (Inl (OSError p), w)
                  else (Inr (), on_files (\<lambda>f. f(p := None)) w))"

definition os_rename :: "env \<Rightarrow> string \<Rightarrow> string \<Rightarrow> world \<Rightarrow> (exn + unit) \<times> world" where
  "os_rename e src dst w =
     (case files w src of
        None \<Rightarrow> (Inl (FileNotFoundError src), w)
      | Some c \<Rightarrow> if rename_fails e then (Inl (OSError src), w)
                  else (Inr (), on_files (\<lambda>f. (f(dst \<mapsto> c))(src := None)) w))"

text \<open>\<^verbatim>\<open>if p.exists(): p.unlink()\<close>, the clean-up of lines 160, 170 and 197.\<close>

definition unlink_if_exists :: "string \<Rightarrow> world \<Rightarrow> world" where
  "unlink_if_exists p w = (if files w p \<noteq> None then on_files (\<lambda>f. f(p := None)) w else w)"

section \<open>The fetch-and-publish worker\<close>

text \<open>
  Lines 183 to 192: the move of the staging file to the intermediate path, with its two
  fall-backs. \<^verbatim>\<open>os.remove(book_path)\<close> runs whenever the first move failed and the
  fall-back did not raise.
\<close>

definition move_to_intermediate ::
  "env \<Rightarrow> string \<Rightarrow> string \<Rightarrow> world \<Rightarrow> (exn + unit) \<times> world" where
  "move_to_intermediate e book_path intermediate_path w =
     (case shutil_move (move_first e) book_path intermediate_path w of
        (Inr u, w1) \<Rightarrow> (Inr (), w1)
      | (Inl x, w1) \<Rightarrow>
          (let w2 = logger (DEBUG (''Error moving book: '' @ exn_text x
                                    @ '', will try copying instead'')) w1
           in case (case shutil_move (move_second e) book_path intermediate_path w2 of
                      (Inr u, w3) \<Rightarrow> (Inr (), w3)
                    | (Inl y, w3) \<Rightarrow>
                        shutil_copyfile (copyfile_result e) book_path intermediate_path
                          (logger (DEBUG (''Error copying book: '' @ exn_text y
                              @ '', will try copying without permissions instead'')) w3))
              of (Inl z, w4) \<Rightarrow> (Inl z, w4)
               | (Inr u, w4) \<Rightarrow> os_remove e book_path w4))"

text \<open>Lines 178 to 204: the publish step.\<close>

definition publish ::
  "config \<Rightarrow> env \<Rightarrow> string \<Rightarrow> JobRecord \<Rightarrow> world \<Rightarrow> (exn + string option) \<times> world" where
  "publish cfg e book_id book_info w =
     (let book_path = book_path_of cfg book_id book_info;
          intermediate_path = intermediate_path_of cfg book_id;
          final_path = final_path_of cfg book_id book_info
      in if files w book_path \<noteq> None then
           (let w1 = logger (INFO (''Moving book to ingest directory: '' @ book_path
                                    @ '' -> '' @ final_path)) w
            in case move_to_intermediate e book_path intermediate_path w1 of
                 (Inl x, w2) \<Rightarrow> (Inl x, w2)
               | (Inr u, w2) \<Rightarrow>
                   if cancel_seen e 195 then
                     (Inr None, unlink_if_exists intermediate_path
                        (logger (INFO (''Download cancelled before final rename: '' @ book_id)) w2))
                   else
                     (case os_rename e intermediate_path final_path w2 of
                        (Inl x, w3) \<Rightarrow> (Inl x, w3)
                      | (Inr u, w3) \<Rightarrow>
                          (Inr (Some final_path),
                           logger (INFO (''Download completed successfully: ''
                                          @ title book_info)) w3)))
         else (Inr (Some final_path), w))"

text \<open>Lines 131 to 204: the body of the \<^verbatim>\<open>try\<close> of \<^verbatim>\<open>_download_book_with_cancellation\<close>.\<close>

definition download_attempt ::
  "config \<Rightarrow> env \<Rightarrow> string \<Rightarrow> world \<Rightarrow> (exn + string option) \<times> world" where
  "download_attempt cfg e book_id w =
     (if cancel_seen e 132 then
        (Inr None, logger (INFO (''Download cancelled before starting: '' @ book_id)) w)
      else
        (case book_data (queue w) book_id of
           None \<Rightarrow> (Inl (KeyError book_id), w)
         | Some book_info \<Rightarrow>
             (let w1 = logger (INFO (''Starting download: '' @ title book_info)) w;
                  book_path = book_path_of cfg book_id book_info
              in if cancel_seen e 147 then
                   (Inr None,
                    logger (INFO (''Download cancelled before book manager call: '' @ book_id)) w1)
                 else
                   (case download_book e book_id book_path w1 of
                      (Inl x, w2) \<Rightarrow> (Inl x, w2)
                    | (Inr success, w2) \<Rightarrow>
                        if cancel_seen e 157 then
                          (Inr None, unlink_if_exists book_path
                             (logger (INFO (''Download cancelled during download: '' @ book_id)) w2))
                        else if \<not> success then
                          (Inl (Exception ''Unknown error downloading book''), w2)
                        else if cancel_seen e 168 then
                          (Inr None, unlink_if_exists book_path
                             (logger (INFO (''Download cancelled before post-processing: ''
                                            @ book_id)) w2))
                        else
                          (case run_custom_script cfg e book_path w2 of
                             (Inl x, w3) \<Rightarrow> (Inl x, w3)
                           | (Inr u, w3) \<Rightarrow> publish cfg e book_id book_info w3)))))"

text \<open>backend.py, \<^verbatim>\<open>_download_book_with_cancellation\<close>: the body and the handler of line 205.\<close>

definition download_book_with_cancellation ::
  "config \<Rightarrow> env \<Rightarrow> string \<Rightarrow> world \<Rightarrow> string option \<times> world" where
  "download_book_with_cancellation cfg e book_id w =
     (case download_attempt cfg e book_id w of
        (Inr r, w1) \<Rightarrow> (r, w1)
      | (Inl x, w1) \<Rightarrow>
          (None,
           if cancel_seen e 206
           then logger (INFO (''Download cancelled during error handling: '' @ book_id)) w1
           else logger (ERROR_TRACE (''Error downloading book: '' @ exn_text x)) w1))"

text \<open>The truth value Python gives an optional string: \<^verbatim>\<open>None\<close> and the empty string are false.\<close>

definition truthy :: "string option \<Rightarrow> bool" where
  "truthy x = (case x of None \<Rightarrow> False | Some s \<Rightarrow> s \<noteq> [])"

text \<open>
  backend.py, \<^verbatim>\<open>_process_single_download\<close>. The operations of the store do not raise, and
  \<^verbatim>\<open>_download_book_with_cancellation\<close> catches every exception itself, so the handler of
  line 293 is never entered.
\<close>

definition process_single_download :: "config \<Rightarrow> env \<Rightarrow> string \<Rightarrow> world \<Rightarrow> world" where
  "process_single_download cfg e book_id w =
     (let w1 = on_queue (update_status book_id PROCESSING) w;
          (download_path, w2) = download_book_with_cancellation cfg e book_id w1
      in if cancel_seen e 277 then on_queue (update_status book_id CANCELLED) w2
         else
           (let (w3, new_status) =
                  (case download_path of
                     Some p \<Rightarrow> if p \<noteq> []
                               then (on_queue (update_download_path book_id p) w2, AVAILABLE)
                               else (w2, ERROR)
                   | None \<Rightarrow> (w2, ERROR));
                w4 = on_queue (update_status book_id new_status) w3
            in logger (INFO (''Book '' @ book_id @ '' download ''
                              @ (if truthy download_path then ''successful'' else ''failed''))) w4))"



section \<open>What holds at every step of a run\<close>

text \<open>
  \<open>evolves R w w'\<close>: the states recorded between \<open>w\<close> and \<open>w'\<close> extend the history of
  \<open>w\<close>, and every step from one recorded state to the next satisfies \<open>R\<close>.
  \<open>during P w w'\<close>: every state entered after \<open>w\<close>, up to and including \<open>w'\<close>, satisfies
  \<open>P\<close>.
\<close>

type_synonym snapshot = "book_queue \<times> (string \<Rightarrow> content option)"

fun steps_ok :: "('a \<Rightarrow> 'a \<Rightarrow> bool) \<Rightarrow> 'a list \<Rightarrow> bool" where
  "steps_ok R (s' # s # rest) = (R s s' \<and> steps_ok R (s # rest))"
| "steps_ok R [s] = True"
| "steps_ok R [] = True"

definition evolves :: "(snapshot \<Rightarrow> snapshot \<Rightarrow> bool) \<Rightarrow> world \<Rightarrow> world \<Rightarrow> bool" where
  "evolves R w w' =
     (\<exists>new. snapshots w' = new @ snapshots w \<and> steps_ok R (new @ [(queue w, files w)]))"

definition during :: "(snapshot \<Rightarrow> bool) \<Rightarrow> world \<Rightarrow> world \<Rightarrow> bool" where
  "during P w w' = (\<exists>new. snapshots w' = new @ snapshots w \<and> list_all P new)"

definition files_closed :: "(snapshot \<Rightarrow> snapshot \<Rightarrow> bool) \<Rightarrow> string set \<Rightarrow> bool" where
  "files_closed R A = (\<forall>q f f'. (\<forall>p. p \<notin> A \<longrightarrow> f' p = f p) \<longrightarrow> R (q, f) (q, f'))"

definition queue_closed :: "(snapshot \<Rightarrow> snapshot \<Rightarrow> bool) \<Rightarrow> (book_queue \<Rightarrow> book_queue) set \<Rightarrow> bool" where
  "queue_closed R G = (\<forall>q f g. g \<in> G \<longrightarrow> R (q, f) (g q, f))"



text \<open>The relations used for the worker: a step leaves a property of the state intact.\<close>

definition preserves :: "(snapshot \<Rightarrow> bool) \<Rightarrow> snapshot \<Rightarrow> snapshot \<Rightarrow> bool" where
  "preserves P s s' = (P s \<longrightarrow> P s')"

text \<open>The ids the store holds, in order.\<close>

definition same_keys :: "string list \<Rightarrow> snapshot \<Rightarrow> bool" where
  "same_keys ks s = (map fst (jobs (fst s)) = ks)"

text \<open>
  The status that lines 277 to 287 of \<^verbatim>\<open>_process_single_download\<close> write, from the cancel
  flag and from what \<^verbatim>\<open>_download_book_with_cancellation\<close> returned.
\<close>

definition final_status :: "config \<Rightarrow> env \<Rightarrow> string \<Rightarrow> world \<Rightarrow> QueueStatus" where
  "final_status cfg e b w =
     (if cancel_seen e 277 then CANCELLED
      else if truthy (fst (download_book_with_cancellation cfg e b
                             (on_queue (update_status b PROCESSING) w)))
      then AVAILABLE else ERROR)"

text \<open>
  The state in which line 178 is reached (the fetch and the custom script are done), for
  a worker that read the record \<open>book_info\<close> in the state \<open>w\<close>; and the condition on the
  flag checks, the fetch and the custom script under which line 178 is reached.
\<close>

definition staged_world :: "config \<Rightarrow> env \<Rightarrow> string \<Rightarrow> JobRecord \<Rightarrow> world \<Rightarrow> world" where
  "staged_world cfg e book_id book_info w =
     snd (run_custom_script cfg e (book_path_of cfg book_id book_info)
       (snd (download_book e book_id (book_path_of cfg book_id book_info)
          (logger (INFO (''Starting download: '' @ title book_info)) w))))"

definition reaches_publish :: "config \<Rightarrow> env \<Rightarrow> bool" where
  "reaches_publish cfg e =
     (\<not> cancel_seen e 132 \<and> \<not> cancel_seen e 147 \<and> fetch_result e = Fetched True
      \<and> \<not> cancel_seen e 157 \<and> \<not> cancel_seen e 168
      \<and> (CUSTOM_SCRIPT cfg = [] \<or> script_result e \<noteq> NotStarted))"

text \<open>
  What the public path \<open>fp\<close> holds in a state: what it held before the run or the content
  \<open>c\<close>; and: what it held before the run.
\<close>

definition public_is :: "string \<Rightarrow> content option \<Rightarrow> content \<Rightarrow> snapshot \<Rightarrow> bool" where
  "public_is fp before c s = (snd s fp = before \<or> snd s fp = Some c)"

definition public_unchanged :: "string \<Rightarrow> content option \<Rightarrow> snapshot \<Rightarrow> bool" where
  "public_unchanged fp before s = (snd s fp = before)"

text \<open>
  A sequence of enqueues (id, title, format, priority), and \<open>n\<close> successive calls of
  \<^verbatim>\<open>get_next\<close>, which stop when no job is QUEUED; the ids come in the order in which they
  are handed out.
\<close>

definition enqueue_all ::
  "(string \<times> string \<times> string option \<times> int) list \<Rightarrow> book_queue \<Rightarrow> book_queue" where
  "enqueue_all ops q = foldl (\<lambda>v (b, ttl, fmt, prio). add b ttl fmt prio v) q ops"

fun get_next_n :: "nat \<Rightarrow> book_queue \<Rightarrow> string list \<times> book_queue" where
  "get_next_n 0 q = ([], q)"
| "get_next_n (Suc n) q =
     (case get_next q of
        None \<Rightarrow> ([], q)
      | Some (b, q') \<Rightarrow> (case get_next_n n q' of (bs, q'') \<Rightarrow> (b # bs, q'')))"

text \<open>
  The jobs of a sequence of enqueues in the order of their first enqueue, each with the
  priority it was given then.
\<close>

definition first_enqueues ::
  "(string \<times> string \<times> string option \<times> int) list \<Rightarrow> (string \<times> int) list" where
  "first_enqueues ops =
     foldl (\<lambda>acc (b, ttl, fmt, prio). if b \<in> fst ` set acc then acc else acc @ [(b, prio)])
       [] ops"

text \<open>The ids of the store are distinct and the insertion numbers increase along it.\<close>

definition seq_ordered :: "book_queue \<Rightarrow> bool" where
  "seq_ordered q =
     (distinct (map fst (jobs q)) \<and> sorted_wrt (<) (map (\<lambda>x. insertionSeq (snd x)) (jobs q)))"

section \<open>The coordinator and its workers\<close>

text \<open>
  Modelled from the spec: \<^verbatim>\<open>activeJobs\<close> (\<^verbatim>\<open>book_queue.get_active_downloads\<close>), the ids of
  the jobs that are PROCESSING or DOWNLOADING.
\<close>

definition active_downloads :: "book_queue \<Rightarrow> string list" where
  "active_downloads q =
     map fst (filter (\<lambda>x. status (snd x) = PROCESSING \<or> status (snd x) = DOWNLOADING) (jobs q))"

text \<open>
  backend.py, \<^verbatim>\<open>concurrent_download_loop\<close> and the workers it submits, as interleaved atomic
  steps on a shared state: the store, the dict \<^verbatim>\<open>active_futures\<close> (future handle and job
  id, handles numbered as they are submitted), the state of the worker of each future,
  and the job that \<^verbatim>\<open>get_next\<close> returned at line 320 and that is not yet submitted.

  \<^item> \<open>Enqueue\<close>: \<^verbatim>\<open>queue_book\<close>, line 73, from a request handler.
  \<^item> \<open>Reap\<close>: lines 310 to 316, the futures that are done leave \<^verbatim>\<open>active_futures\<close>.
  \<^item> \<open>GetNext\<close>: lines 319 to 322, taken only while fewer than the maximum are tracked.
  \<^item> \<open>Submit\<close>: lines 328 and 329.
  \<^item> \<open>WorkerStart\<close>: line 274 of \<^verbatim>\<open>_process_single_download\<close>.
  \<^item> \<open>WorkerProgress\<close>: the progress callback of line 151.
  \<^item> \<open>WorkerFinish\<close>: lines 277 to 287, for what \<^verbatim>\<open>_download_book_with_cancellation\<close>
    returned and for the value of the cancel flag; the future is then done.
\<close>

datatype worker_state = Waiting | Running | Done

record coordinator =
  store :: book_queue
  active_futures :: "(nat \<times> string) list"
  worker :: "nat \<Rightarrow> worker_state"
  next_future :: nat
  pending :: "string option"

definition initial :: coordinator where
  "initial =
     \<lparr>store = empty_queue, active_futures = [], worker = (\<lambda>f. Done), next_future = 0,
      pending = None\<rparr>"

datatype event =
    Enqueue string string "string option" int
  | Reap
  | GetNext
  | Submit
  | WorkerStart nat
  | WorkerProgress nat real
  | WorkerFinish nat "string option" bool

fun step :: "config \<Rightarrow> event \<Rightarrow> coordinator \<Rightarrow> coordinator" where
  "step cfg (Enqueue b ttl fmt prio) s = s\<lparr>store := add b ttl fmt prio (store s)\<rparr>"
| "step cfg Reap s =
     s\<lparr>active_futures := filter (\<lambda>x. worker s (fst x) \<noteq> Done) (active_futures s)\<rparr>"
| "step cfg GetNext s =
     (if pending s = None \<and> length (active_futures s) < MAX_CONCURRENT_DOWNLOADS cfg then
        (case get_next (store s) of
           None \<Rightarrow> s
         | Some (book_id, q) \<Rightarrow> s\<lparr>store := q, pending := Some book_id\<rparr>)
      else s)"
| "step cfg Submit s =
     (case pending s of
        None \<Rightarrow> s
      | Some book_id \<Rightarrow>
          s\<lparr>active_futures := active_futures s @ [(next_future s, book_id)],
            worker := (worker s)(next_future s := Waiting),
            next_future := Suc (next_future s),
            pending := None\<rparr>)"
| "step cfg (WorkerStart f) s =
     (case map_of (active_futures s) f of
        None \<Rightarrow> s
      | Some book_id \<Rightarrow>
          if worker s f = Waiting
          then s\<lparr>store := update_status book_id PROCESSING (store s),
                 worker := (worker s)(f := Running)\<rparr>
          else s)"
| "step cfg (WorkerProgress f p) s =
     (case map_of (active_futures s) f of
        None \<Rightarrow> s
      | Some book_id \<Rightarrow>
          if worker s f = Running
          then s\<lparr>store := update_download_progress book_id p (store s)\<rparr>
          else s)"
| "step cfg (WorkerFinish f returned cancelled) s =
     (case map_of (active_futures s) f of
        None \<Rightarrow> s
      | Some book_id \<Rightarrow>
          if worker s f = Running
          then s\<lparr>store :=
                   (if cancelled then update_status book_id CANCELLED (store s)
                    else case returned of
                           Some p \<Rightarrow>
                             if p \<noteq> []
                             then update_status book_id AVAILABLE
                                    (update_download_path book_id p (store s))
                             else update_status book_id ERROR (store s)
                         | None \<Rightarrow> update_status book_id ERROR (store s)),
                 worker := (worker s)(f := Done)\<rparr>
          else s)"

definition run :: "config \<Rightarrow> event list \<Rightarrow> coordinator \<Rightarrow> coordinator" where
  "run cfg evs s = foldl (\<lambda>v ev. step cfg ev v) s evs"

text \<open>
  A job is accounted for when it is the job just taken from the queue or the job of a
  tracked future whose worker has not finished.
\<close>

definition covered :: "coordinator \<Rightarrow> string \<Rightarrow> bool" where
  "covered s b =
     (pending s = Some b \<or> (\<exists>f. (f, b) \<in> set (active_futures s) \<and> worker s f \<noteq> Done))"

definition pool_invariant :: "config \<Rightarrow> coordinator \<Rightarrow> bool" where
  "pool_invariant cfg s =
     (distinct (map fst (jobs (store s)))
      \<and> (\<forall>b \<in> set (active_downloads (store s)). covered s b)
      \<and> length (active_futures s) + (if pending s = None then 0 else 1)
            \<le> MAX_CONCURRENT_DOWNLOADS cfg
      \<and> (\<forall>x \<in> set (active_futures s). fst x < next_future s)
      \<and> distinct (map fst (active_futures s)))"

section \<open>Operations on the store, one after another\<close>







text \<open>The records of the store with the status and the progress of one job masked.\<close>

definition without_status :: "string \<Rightarrow> book_queue \<Rightarrow> (string \<times> JobRecord) list" where
  "without_status b q =
     map (\<lambda>x. (fst x, if fst x = b then (snd x)\<lparr>status := QUEUED, progress := 0\<rparr> else snd x))
       (jobs q)"





section \<open>Example inputs\<close>

definition example_job :: JobRecord where
  "example_job = \<lparr>title = ''Dune'', format = Some ''epub'', status = QUEUED, priority = 0,
     insertionSeq = 0, progress = 0, download_path = None\<rparr>"

definition example_cfg :: config where
  "example_cfg = \<lparr>TMP_DIR = ''/tmp/cwa'', INGEST_DIR = ''/ingest'', USE_BOOK_TITLE = False,
     CUSTOM_SCRIPT = [], MAX_CONCURRENT_DOWNLOADS = 2\<rparr>"

definition example_world :: world where
  "example_world =
     \<lparr>queue = \<lparr>jobs = [(''b1'', example_job)], next_seq = 1\<rparr>,
      files = (\<lambda>p. None), log = [], past = []\<rparr>"

text \<open>A run in which nothing goes wrong: the fetch leaves a complete file and reports success.\<close>

definition example_env :: env where
  "example_env =
     \<lparr>cancel_seen = (\<lambda>n. False), fetch_progress = [1 / 2, 1],
      fetch_file = Some (Complete ''data''), fetch_result = Fetched True,
      script_result = Exited 0, script_file = (\<lambda>c. c),
      move_first = IoDone, move_second = IoDone, copyfile_result = IoDone,
      remove_fails = False, rename_fails = False\<rparr>"


section \<open>Properties of the store and of the progress callback\<close>

lemma map_of_modify:
  "map_of (jobs (modify b f q)) k =
     (if k = b then map_option f (map_of (jobs q) k) else map_of (jobs q) k)"
proof -
  have "map_of (map (\<lambda>(k, r). (k, if k = b then f r else r)) js) k =
          (if k = b then map_option f (map_of js k) else map_of js k)" for js
    by (induction js) auto
  then show ?thesis
    by (simp add: modify_def)
qed

lemma keys_modify: "map fst (jobs (modify b f q)) = map fst (jobs q)"
  by (simp add: modify_def case_prod_unfold comp_def)

lemma status_update_status:
  "get_status_for_book (update_status b st q) k =
     (if k = b then map_option (\<lambda>_. st) (get_status_for_book q k) else get_status_for_book q k)"
  by (simp add: get_status_for_book_def book_data_def update_status_def map_of_modify
      option.map_comp comp_def)

lemma status_update_progress:
  "get_status_for_book (update_progress b p q) k = get_status_for_book q k"
  by (simp add: get_status_for_book_def book_data_def update_progress_def map_of_modify
      option.map_comp comp_def)


lemma status_update_download_progress:
  "get_status_for_book (update_download_progress b p q) k =
     (if k = b \<and> get_status_for_book q b = Some PROCESSING then Some DOWNLOADING
      else get_status_for_book q k)"
  by (auto simp: update_download_progress_def Let_def status_update_progress
      status_update_status)

text \<open>
  C10. The progress callback changes the status of a job only when the job is PROCESSING,
  which becomes DOWNLOADING. In every other status, the terminal ones included, the store
  after the call is the store before it with the progress of that job written: the status
  of every job is what it was, and the record of the job differs in its progress field
  only.
\<close>

theorem update_download_progress_status_frame:
  "get_status_for_book (update_download_progress book_id p q) k =
     (if k = book_id \<and> get_status_for_book q book_id = Some PROCESSING
      then Some DOWNLOADING else get_status_for_book q k)
   \<and> (get_status_for_book q book_id \<noteq> Some PROCESSING \<longrightarrow>
        update_download_progress book_id p q = update_progress book_id p q
        \<and> book_data (update_download_progress book_id p q) k =
            (if k = book_id then map_option (\<lambda>r. r\<lparr>progress := p\<rparr>) (book_data q k)
             else book_data q k))"
  by (simp add: status_update_download_progress)
    (simp add: update_download_progress_def update_progress_def book_data_def map_of_modify)

theorem update_download_progress_status_frame_witness:
  "get_status_for_book \<lparr>jobs = [(''b1'', example_job\<lparr>status := AVAILABLE\<rparr>)], next_seq = 1\<rparr> ''b1''
     \<noteq> Some PROCESSING
   \<and> get_status_for_book
       (update_download_progress ''b1'' (1 / 2)
          \<lparr>jobs = [(''b1'', example_job\<lparr>status := AVAILABLE\<rparr>)], next_seq = 1\<rparr>) ''b1''
     = Some AVAILABLE
   \<and> book_data
       (update_download_progress ''b1'' (1 / 2)
          \<lparr>jobs = [(''b1'', example_job\<lparr>status := AVAILABLE\<rparr>)], next_seq = 1\<rparr>) ''b1''
     = Some (example_job\<lparr>status := AVAILABLE, progress := 1 / 2\<rparr>)"
  using update_download_progress_status_frame
    [of "''b1''" "1 / 2"
        "\<lparr>jobs = [(''b1'', example_job\<lparr>status := AVAILABLE\<rparr>)], next_seq = 1\<rparr>" "''b1''"]
  by (simp add: get_status_for_book_def book_data_def example_job_def update_progress_def
      modify_def)

section \<open>Staging paths\<close>

lemmas path_defs = path_join_def str_path_def truediv_def parse_parts_def splitroot_def

lemma split_at_last_dot:
  "c \<notin> set ys \<Longrightarrow> c \<notin> set ys' \<Longrightarrow> xs @ c # ys = xs' @ c # ys' \<Longrightarrow> xs = xs'"
proof (induction xs arbitrary: xs')
  case Nil
  then show ?case
    by (cases xs') auto
next
  case (Cons a xs)
  then show ?case
    by (cases xs') auto
qed

lemma split_sep_single: "CHR ''/'' \<notin> set s \<Longrightarrow> split_sep acc s = [rev acc @ s]"
  by (induction s arbitrary: acc) auto

lemma parse_parts_single:
  assumes "CHR ''/'' \<notin> set n"
  shows "parse_parts n = ([], if n = [] \<or> n = ''.'' then [] else [n])"
proof -
  from assms have "splitroot n = ([], n)"
    by (cases n) (auto simp add: splitroot_def)
  with assms show ?thesis
    by (simp add: parse_parts_def split_sep_single)
qed

lemma sep_join_snoc:
  "sep_join (ps @ [n]) = (if ps = [] then n else sep_join ps @ ''/'' @ n)"
  by (induction ps rule: sep_join.induct) simp_all

lemma path_join_single:
  assumes "CHR ''/'' \<notin> set n" "n \<noteq> []"
  shows "path_join d n =
           (if n = ''.'' then str_path (parse_parts d)
            else if snd (parse_parts d) = [] then fst (parse_parts d) @ n
            else fst (parse_parts d) @ sep_join (snd (parse_parts d)) @ ''/'' @ n)"
  using assms
  by (simp add: path_join_def truediv_def parse_parts_single str_path_def sep_join_snoc)

lemma path_join_inject:
  assumes "CHR ''/'' \<notin> set n1" "n1 \<noteq> []" "CHR ''/'' \<notin> set n2" "n2 \<noteq> []"
    and "path_join d n1 = path_join d n2"
  shows "n1 = n2"
proof -
  obtain r ps where p: "parse_parts d = (r, ps)"
    by (cases "parse_parts d")
  have a: "path_join d n =
             (if n = ''.'' then (if r @ sep_join ps = [] then ''.'' else r @ sep_join ps)
              else if ps = [] then r @ n else (r @ sep_join ps) @ ''/'' @ n)"
    if "CHR ''/'' \<notin> set n" "n \<noteq> []" for n
    using that by (simp add: path_join_single p str_path_def Let_def cong: if_cong)
  from assms(5) have
    "(if n1 = ''.'' then (if r @ sep_join ps = [] then ''.'' else r @ sep_join ps)
      else if ps = [] then r @ n1 else (r @ sep_join ps) @ ''/'' @ n1)
     = (if n2 = ''.'' then (if r @ sep_join ps = [] then ''.'' else r @ sep_join ps)
        else if ps = [] then r @ n2 else (r @ sep_join ps) @ ''/'' @ n2)"
    by (simp only: a [OF assms(1,2)] a [OF assms(3,4)])
  with assms(2,4) show ?thesis
    by (auto split: if_splits)
qed

text \<open>
  C9, as stated, fails: with USE_BOOK_TITLE enabled the staging name is the sanitized
  title and the format, so two jobs with different ids and the same title and format
  write to the same staging path.
\<close>

theorem staging_path_collision_with_titles:
  "''id1'' \<noteq> ''id2''
   \<and> book_path_of (example_cfg\<lparr>USE_BOOK_TITLE := True\<rparr>) ''id1'' example_job
       = book_path_of (example_cfg\<lparr>USE_BOOK_TITLE := True\<rparr>) ''id2'' example_job"
  by (simp add: book_path_of_def book_name_of_def example_cfg_def)

text \<open>
  C9, amended. With USE_BOOK_TITLE disabled the staging name is the job id and the
  format: two jobs with different ids have different staging paths, whatever the
  staging directory is, when neither the ids nor the formats contain the path separator
  and the formats contain no dot. (An id with a separator is a relative or absolute path
  of its own: \<^verbatim>\<open>./b1\<close> and \<^verbatim>\<open>b1\<close> are staged at the same path.)
\<close>

theorem staging_paths_distinct_by_id:
  assumes "\<not> USE_BOOK_TITLE cfg" and "id1 \<noteq> id2"
    and "CHR ''/'' \<notin> set id1" and "CHR ''/'' \<notin> set id2"
    and "CHR ''/'' \<notin> set (fstr (format r1))" and "CHR ''/'' \<notin> set (fstr (format r2))"
    and "CHR ''.'' \<notin> set (fstr (format r1))" and "CHR ''.'' \<notin> set (fstr (format r2))"
  shows "book_path_of cfg id1 r1 \<noteq> book_path_of cfg id2 r2"
proof
  assume "book_path_of cfg id1 r1 = book_path_of cfg id2 r2"
  with assms(1) have "path_join (TMP_DIR cfg) (id1 @ CHR ''.'' # fstr (format r1))
                      = path_join (TMP_DIR cfg) (id2 @ CHR ''.'' # fstr (format r2))"
    by (simp add: book_path_of_def book_name_of_def)
  moreover from assms(3-6) have
    "CHR ''/'' \<notin> set (id1 @ CHR ''.'' # fstr (format r1))"
    "CHR ''/'' \<notin> set (id2 @ CHR ''.'' # fstr (format r2))"
    by simp_all
  ultimately have "id1 @ CHR ''.'' # fstr (format r1) = id2 @ CHR ''.'' # fstr (format r2)"
    using path_join_inject [of "id1 @ CHR ''.'' # fstr (format r1)"
        "id2 @ CHR ''.'' # fstr (format r2)" "TMP_DIR cfg"]
    by simp
  with assms(7,8) have "id1 = id2"
    by (rule split_at_last_dot)
  with assms(2) show False
    by simp
qed

text \<open>
  The condition on the separator is needed: the ids \<^verbatim>\<open>./b1\<close> and \<^verbatim>\<open>b1\<close> differ and are
  staged at one path, and an absolute id leaves the staging directory.
\<close>

lemma staging_path_of_id_with_separator:
  "book_path_of example_cfg ''./b1'' example_job = book_path_of example_cfg ''b1'' example_job"
  "book_path_of example_cfg ''/x/b1'' example_job = ''/x/b1.epub''"
  "final_path_of example_cfg ''/x/b1'' example_job = ''/x/b1.epub''"
  by (simp_all add: example_cfg_def example_job_def fstr_def book_path_of_def final_path_of_def
      book_name_of_def path_defs)

theorem staging_paths_distinct_by_id_witness:
  "\<not> USE_BOOK_TITLE example_cfg \<and> ''id1'' \<noteq> ''id2''
   \<and> CHR ''/'' \<notin> set ''id1'' \<and> CHR ''/'' \<notin> set ''id2''
   \<and> CHR ''/'' \<notin> set (fstr (format example_job))
   \<and> CHR ''.'' \<notin> set (fstr (format example_job))
   \<and> book_path_of example_cfg ''id1'' example_job = ''/tmp/cwa/id1.epub''
   \<and> book_path_of example_cfg ''id2'' example_job = ''/tmp/cwa/id2.epub''
   \<and> book_path_of example_cfg ''id1'' example_job \<noteq> book_path_of example_cfg ''id2'' example_job"
  using staging_paths_distinct_by_id [of example_cfg "''id1''" "''id2''" example_job example_job]
  by (simp add: example_cfg_def example_job_def fstr_def book_path_of_def book_name_of_def
      path_defs)

section \<open>Steps of the worker\<close>

lemma logger_simps [simp]:
  "queue (logger x w) = queue w" "files (logger x w) = files w"
  "past (logger x w) = past w" "snapshots (logger x w) = snapshots w"
  by (simp_all add: logger_def snapshots_def)

lemma on_queue_simps [simp]:
  "queue (on_queue g w) = g (queue w)" "files (on_queue g w) = files w"
  "log (on_queue g w) = log w"
  "snapshots (on_queue g w) = (g (queue w), files w) # snapshots w"
  by (simp_all add: on_queue_def snapshots_def)

lemma on_files_simps [simp]:
  "queue (on_files g w) = queue w" "files (on_files g w) = g (files w)"
  "log (on_files g w) = log w"
  "snapshots (on_files g w) = (queue w, g (files w)) # snapshots w"
  by (simp_all add: on_files_def snapshots_def)

lemma evolves_refl: "evolves R w w"
  by (simp add: evolves_def)

lemma evolves_logger: "evolves R w w' \<Longrightarrow> evolves R w (logger x w')"
  by (simp add: evolves_def)

lemma steps_ok_Cons:
  "steps_ok R (xs @ [c]) \<Longrightarrow> R (hd (xs @ [c])) s \<Longrightarrow> steps_ok R ((s # xs) @ [c])"
  by (cases xs) auto

lemma evolves_head:
  assumes "snapshots w' = new @ snapshots w"
  shows "hd (new @ [(queue w, files w)]) = (queue w', files w')"
proof (cases new)
  case Nil
  with assms show ?thesis
    by (simp add: snapshots_def)
next
  case (Cons x xs)
  with assms show ?thesis
    by (simp add: snapshots_def)
qed

lemma evolves_push:
  assumes "evolves R w w'" and "snapshots w'' = s # snapshots w'" and "R (queue w', files w') s"
  shows "evolves R w w''"
proof -
  from assms(1) obtain new where n: "snapshots w' = new @ snapshots w"
    and ok: "steps_ok R (new @ [(queue w, files w)])"
    unfolding evolves_def by blast
  from assms(3) evolves_head [OF n] have "R (hd (new @ [(queue w, files w)])) s"
    by simp
  with ok have "steps_ok R ((s # new) @ [(queue w, files w)])"
    by (rule steps_ok_Cons)
  moreover from assms(2) n have "snapshots w'' = (s # new) @ snapshots w"
    by simp
  ultimately show ?thesis
    unfolding evolves_def by blast
qed

lemma evolves_on_queue:
  "evolves R w w' \<Longrightarrow> R (queue w', files w') (g (queue w'), files w') \<Longrightarrow> evolves R w (on_queue g w')"
  by (erule evolves_push) simp_all

lemma evolves_on_files:
  "evolves R w w' \<Longrightarrow> R (queue w', files w') (queue w', g (files w')) \<Longrightarrow> evolves R w (on_files g w')"
  by (erule evolves_push) simp_all

lemma evolves_write:
  "evolves R w w' \<Longrightarrow> files_closed R A \<Longrightarrow> p \<in> A \<Longrightarrow> evolves R w (on_files (\<lambda>f. f(p := v)) w')"
  by (rule evolves_on_files) (auto simp: files_closed_def)

lemma evolves_put:
  "evolves R w w' \<Longrightarrow> files_closed R A \<Longrightarrow> p \<in> A \<Longrightarrow> evolves R w (on_files (\<lambda>f. f(p \<mapsto> c)) w')"
  by (rule evolves_write)

lemma evolves_put_del:
  "evolves R w w' \<Longrightarrow> files_closed R A \<Longrightarrow> p \<in> A \<Longrightarrow> p' \<in> A
     \<Longrightarrow> evolves R w (on_files (\<lambda>f. (f(p \<mapsto> c))(p' := None)) w')"
  by (rule evolves_on_files) (auto simp: files_closed_def)

lemma evolves_unlink_if_exists:
  "evolves R w w' \<Longrightarrow> files_closed R A \<Longrightarrow> p \<in> A \<Longrightarrow> evolves R w (unlink_if_exists p w')"
  by (simp add: unlink_if_exists_def evolves_write)

lemma evolves_shutil_move:
  "evolves R w w' \<Longrightarrow> files_closed R A \<Longrightarrow> src \<in> A \<Longrightarrow> dst \<in> A
     \<Longrightarrow> evolves R w (snd (shutil_move r src dst w'))"
  by (auto simp: shutil_move_def evolves_put evolves_put_del split: option.split io_result.split)

lemma evolves_shutil_copyfile:
  "evolves R w w' \<Longrightarrow> files_closed R A \<Longrightarrow> dst \<in> A
     \<Longrightarrow> evolves R w (snd (shutil_copyfile r src dst w'))"
  by (auto simp: shutil_copyfile_def evolves_put split: option.split io_result.split)

lemma evolves_os_remove:
  "evolves R w w' \<Longrightarrow> files_closed R A \<Longrightarrow> p \<in> A \<Longrightarrow> evolves R w (snd (os_remove e p w'))"
  by (auto simp: os_remove_def evolves_write split: option.split)

lemma evolves_os_rename:
  "evolves R w w' \<Longrightarrow> files_closed R A \<Longrightarrow> src \<in> A \<Longrightarrow> dst \<in> A
     \<Longrightarrow> evolves R w (snd (os_rename e src dst w'))"
  by (auto simp: os_rename_def evolves_put_del split: option.split)

lemma evolves_run_custom_script:
  "evolves R w w' \<Longrightarrow> files_closed R A \<Longrightarrow> p \<in> A
     \<Longrightarrow> evolves R w (snd (run_custom_script cfg e p w'))"
  by (auto simp: run_custom_script_def Let_def evolves_logger files_closed_def
      split: script_result.split intro!: evolves_on_files)

lemma evolves_progress:
  assumes "queue_closed R {update_download_progress b p |p. p \<in> set ps}"
  shows "evolves R w w'
     \<Longrightarrow> evolves R w (foldl (\<lambda>v p. on_queue (update_download_progress b p) v) w' ps)"
  using assms
proof (induction ps arbitrary: w')
  case Nil
  then show ?case by simp
next
  case (Cons p ps)
  have "R (queue w', files w') (update_download_progress b p (queue w'), files w')"
    using Cons.prems(2) unfolding queue_closed_def by auto
  with Cons.prems(1) have "evolves R w (on_queue (update_download_progress b p) w')"
    by (rule evolves_on_queue)
  moreover have "queue_closed R {update_download_progress b p |p. p \<in> set ps}"
    using Cons.prems(2) unfolding queue_closed_def by auto
  ultimately show ?case
    using Cons.IH by simp
qed

lemma evolves_download_book:
  assumes "evolves R w w'" "files_closed R A" "p \<in> A"
    and "queue_closed R {update_download_progress b x |x. x \<in> set (fetch_progress e)}"
  shows "evolves R w (snd (download_book e b p w'))"
proof -
  have "evolves R w (foldl (\<lambda>v x. on_queue (update_download_progress b x) v) w' (fetch_progress e))"
    using assms(4,1) by (rule evolves_progress)
  then show ?thesis
    using assms(2,3)
    by (auto simp: download_book_def Let_def evolves_put split: option.split fetch_result.split)
qed

lemma evolves_move_to_intermediate:
  assumes "evolves R w w'" "files_closed R A" "src \<in> A" "dst \<in> A"
  shows "evolves R w (snd (move_to_intermediate e src dst w'))"
  unfolding move_to_intermediate_def Let_def
  by (auto split: prod.splits sum.splits dest!: sndI
      intro!: evolves_shutil_move [OF _ assms(2,3,4)] evolves_shutil_copyfile [OF _ assms(2,4)]
        evolves_os_remove [OF _ assms(2,3)] evolves_logger assms(1))

lemma evolves_publish:
  assumes "evolves R w w'" "files_closed R A"
    and "book_path_of cfg b r \<in> A" "intermediate_path_of cfg b \<in> A"
    and "cancel_seen e 195 \<or> final_path_of cfg b r \<in> A"
  shows "evolves R w (snd (publish cfg e b r w'))"
  using assms(5) unfolding publish_def Let_def
  by (auto split: prod.splits sum.splits dest!: sndI
      intro!: evolves_move_to_intermediate [OF _ assms(2,3,4)]
        evolves_unlink_if_exists [OF _ assms(2,4)] evolves_os_rename [OF _ assms(2,4)]
        evolves_logger assms(1))

lemma evolves_download_attempt:
  assumes "evolves R w w'" "files_closed R A"
    and "cancel_seen e 132 \<or> cancel_seen e 147
         \<or> queue_closed R {update_download_progress b x |x. x \<in> set (fetch_progress e)}"
    and "\<And>r. book_data (queue w') b = Some r \<Longrightarrow>
           book_path_of cfg b r \<in> A \<and> intermediate_path_of cfg b \<in> A
           \<and> (cancel_seen e 195 \<or> final_path_of cfg b r \<in> A)"
  shows "evolves R w (snd (download_attempt cfg e b w'))"
  using assms(3,4) unfolding download_attempt_def Let_def
  by (auto split: option.splits prod.splits sum.splits dest!: sndI
      intro!: evolves_publish [OF _ assms(2)] evolves_run_custom_script [OF _ assms(2)]
        evolves_unlink_if_exists [OF _ assms(2)] evolves_download_book [OF _ assms(2)]
        evolves_logger assms(1))

lemma evolves_download_book_with_cancellation:
  assumes "evolves R w w'" "files_closed R A"
    and "cancel_seen e 132 \<or> cancel_seen e 147
         \<or> queue_closed R {update_download_progress b x |x. x \<in> set (fetch_progress e)}"
    and "\<And>r. book_data (queue w') b = Some r \<Longrightarrow>
           book_path_of cfg b r \<in> A \<and> intermediate_path_of cfg b \<in> A
           \<and> (cancel_seen e 195 \<or> final_path_of cfg b r \<in> A)"
  shows "evolves R w (snd (download_book_with_cancellation cfg e b w'))"
  unfolding download_book_with_cancellation_def
  by (auto split: prod.splits sum.splits dest!: sndI
      intro!: evolves_logger evolves_download_attempt [OF assms])

lemma book_data_modify:
  "book_data (modify b g q) k = (if k = b then map_option g (book_data q k) else book_data q k)"
  by (simp add: book_data_def map_of_modify)

lemma book_data_update_status:
  "book_data (update_status b st q) k =
     (if k = b then map_option (\<lambda>r. r\<lparr>status := st\<rparr>) (book_data q k) else book_data q k)"
  by (simp add: update_status_def book_data_modify)

lemma book_data_update_download_path:
  "book_data (update_download_path b p q) k =
     (if k = b then map_option (\<lambda>r. r\<lparr>download_path := Some p\<rparr>) (book_data q k)
      else book_data q k)"
  by (simp add: update_download_path_def book_data_modify)

lemma book_data_update_progress:
  "book_data (update_progress b p q) k =
     (if k = b then map_option (\<lambda>r. r\<lparr>progress := p\<rparr>) (book_data q k) else book_data q k)"
  by (simp add: update_progress_def book_data_modify)

lemma paths_status [simp]:
  "book_name_of cfg b (r\<lparr>status := st\<rparr>) = book_name_of cfg b r"
  "book_path_of cfg b (r\<lparr>status := st\<rparr>) = book_path_of cfg b r"
  "final_path_of cfg b (r\<lparr>status := st\<rparr>) = final_path_of cfg b r"
  by (simp_all add: book_name_of_def book_path_of_def final_path_of_def)

lemma evolves_process_single_download:
  assumes fc: "files_closed R A"
    and qc: "queue_closed R ({update_status b st |st. st \<noteq> DOWNLOADING}
                             \<union> {update_download_path b p |p. True})"
    and pc: "cancel_seen e 132 \<or> cancel_seen e 147
         \<or> queue_closed R {update_download_progress b x |x. x \<in> set (fetch_progress e)}"
    and paths: "\<And>r. book_data (queue w) b = Some r \<Longrightarrow>
           book_path_of cfg b r \<in> A \<and> intermediate_path_of cfg b \<in> A
           \<and> (cancel_seen e 195 \<or> final_path_of cfg b r \<in> A)"
  shows "evolves R w (process_single_download cfg e b w)"
proof -
  let ?w1 = "on_queue (update_status b PROCESSING) w"
  have st: "R (q, f) (update_status b st q, f)" if "st \<noteq> DOWNLOADING" for q f st
    using qc that unfolding queue_closed_def by blast
  have dp: "R (q, f) (update_download_path b p q, f)" for q f p
    using qc unfolding queue_closed_def by blast
  have 1: "evolves R w ?w1"
    by (rule evolves_on_queue [OF evolves_refl]) (simp add: st)
  have 2: "evolves R w (snd (download_book_with_cancellation cfg e b ?w1))"
    using 1 fc pc
  proof (rule evolves_download_book_with_cancellation)
    fix r assume "book_data (queue ?w1) b = Some r"
    then obtain r0 where "book_data (queue w) b = Some r0" "r = r0\<lparr>status := PROCESSING\<rparr>"
      by (auto simp: book_data_update_status)
    with paths [of r0] show "book_path_of cfg b r \<in> A \<and> intermediate_path_of cfg b \<in> A
           \<and> (cancel_seen e 195 \<or> final_path_of cfg b r \<in> A)"
      by simp
  qed
  show ?thesis
    unfolding process_single_download_def Let_def
    by (auto split: prod.splits option.splits dest!: sndI
        intro!: evolves_logger evolves_on_queue 2 st dp)
qed

lemma steps_preserves:
  "steps_ok (preserves P) (new @ [c]) \<Longrightarrow> P c \<Longrightarrow> list_all P new \<and> P (hd (new @ [c]))"
proof (induction new)
  case Nil
  then show ?case by simp
next
  case (Cons s new)
  then show ?case
    by (cases new) (auto simp: preserves_def)
qed

lemma evolves_during:
  assumes "evolves (preserves P) w w'" and "P (queue w, files w)"
  shows "during P w w' \<and> P (queue w', files w')"
proof -
  from assms(1) obtain new where n: "snapshots w' = new @ snapshots w"
    and ok: "steps_ok (preserves P) (new @ [(queue w, files w)])"
    unfolding evolves_def by blast
  from steps_preserves [OF ok assms(2)] evolves_head [OF n] n show ?thesis
    unfolding during_def by auto
qed

section \<open>The worker: statuses\<close>








lemmas worker_defs = process_single_download_def download_book_with_cancellation_def
  download_attempt_def publish_def move_to_intermediate_def download_book_def
  run_custom_script_def shutil_move_def shutil_copyfile_def os_remove_def os_rename_def
  unlink_if_exists_def on_queue_def on_files_def logger_def snapshots_def

lemmas store_defs = update_download_progress_def update_status_def update_progress_def
  update_download_path_def modify_def get_status_for_book_def book_data_def

lemmas example_defs = example_world_def example_env_def example_cfg_def example_job_def


text \<open>The run of the example, which reports progress, does enter DOWNLOADING.\<close>

lemma example_run_enters_downloading:
  "\<exists>s \<in> set (snapshots (process_single_download example_cfg example_env ''b1'' example_world)).
     get_status_for_book (fst s) ''b1'' = Some DOWNLOADING"
  by (simp add: worker_defs store_defs example_defs book_path_of_def book_name_of_def
      path_defs fstr_def final_path_of_def intermediate_path_of_def truthy_def Let_def)


lemma keys_update_download_progress:
  "map fst (jobs (update_download_progress b p q)) = map fst (jobs q)"
  by (simp add: update_download_progress_def Let_def update_progress_def update_status_def
      keys_modify)

lemma same_keys_files_closed: "files_closed (preserves (same_keys ks)) UNIV"
  by (simp add: files_closed_def preserves_def same_keys_def)

lemma same_keys_queue_closed:
  "queue_closed (preserves (same_keys ks))
     ({update_status b st |st. st \<noteq> DOWNLOADING} \<union> {update_download_path b p |p. True})"
  by (auto simp: queue_closed_def preserves_def same_keys_def update_status_def
      update_download_path_def keys_modify)

lemma same_keys_progress_closed:
  "queue_closed (preserves (same_keys ks)) {update_download_progress b x |x. x \<in> set ps}"
  by (auto simp: queue_closed_def preserves_def same_keys_def keys_update_download_progress)

lemma keys_process_single_download:
  "map fst (jobs (queue (process_single_download cfg e b w))) = map fst (jobs (queue w))"
proof -
  have "evolves (preserves (same_keys (map fst (jobs (queue w))))) w
          (process_single_download cfg e b w)"
    by (intro evolves_process_single_download
        [OF same_keys_files_closed same_keys_queue_closed])
      (simp_all add: same_keys_progress_closed)
  then show ?thesis
    using evolves_during [of "same_keys (map fst (jobs (queue w)))" w]
    by (simp add: same_keys_def)
qed

lemma entries_update_status:
  "x \<in> set (jobs (update_status b st q)) \<Longrightarrow> fst x = b \<Longrightarrow> status (snd x) = st"
  by (cases x) (auto simp: update_status_def modify_def)

lemma entries_process_single_download:
  assumes "x \<in> set (jobs (queue (process_single_download cfg e b w)))" and "fst x = b"
  shows "status (snd x) = final_status cfg e b w"
  using assms unfolding process_single_download_def final_status_def Let_def
  by (auto simp: truthy_def split: prod.splits option.splits if_splits
      dest: entries_update_status)

lemma status_process_single_download:
  assumes "book_data (queue w) b = Some r"
  shows "get_status_for_book (queue (process_single_download cfg e b w)) b
           = Some (final_status cfg e b w)"
proof -
  let ?q = "queue (process_single_download cfg e b w)"
  from assms have "b \<in> fst ` set (jobs (queue w))"
    by (auto simp: book_data_def dest: map_of_SomeD intro: rev_image_eqI)
  then have "b \<in> fst ` set (jobs ?q)"
    using keys_process_single_download [of cfg e b w] by (metis set_map)
  then obtain r' where r': "map_of (jobs ?q) b = Some r'"
    by (metis map_of_eq_None_iff not_Some_eq)
  then have "(b, r') \<in> set (jobs ?q)"
    by (rule map_of_SomeD)
  then have "status r' = final_status cfg e b w"
    using entries_process_single_download [of "(b, r')"] by simp
  with r' show ?thesis
    by (simp add: get_status_for_book_def book_data_def)
qed

lemma min_job_mem: "min_job xs = Some x \<Longrightarrow> x \<in> set xs"
  by (induction xs arbitrary: x) (auto split: option.splits if_splits)

lemma get_next_queued:
  "get_next q = Some (b, q') \<Longrightarrow> \<exists>x \<in> set (jobs q). fst x = b \<and> status (snd x) = QUEUED"
  by (auto simp: get_next_def queued_def split: option.splits dest!: min_job_mem)

lemma final_status_terminal:
  "final_status cfg e b w = AVAILABLE \<or> final_status cfg e b w = ERROR
   \<or> final_status cfg e b w = CANCELLED"
  by (simp add: final_status_def)

lemma final_status_raise:
  "fst (download_attempt cfg e b (on_queue (update_status b PROCESSING) w)) = Inl x
     \<Longrightarrow> final_status cfg e b w = (if cancel_seen e 277 then CANCELLED else ERROR)"
  by (auto simp: final_status_def download_book_with_cancellation_def truthy_def
      split: prod.splits sum.splits)

text \<open>
  C5. For a job the store knows, the worker always ends with the job AVAILABLE, ERROR or
  CANCELLED. When an exception is raised inside \<^verbatim>\<open>_download_book_with_cancellation\<close> (by
  the lookup of the record, the fetch, the custom script or a file operation), the job
  ends ERROR, or CANCELLED when the cancel flag is set at line 277. The job is not QUEUED
  afterwards, so the scheduler does not hand it out again.
\<close>

theorem worker_always_ends_in_terminal_state:
  assumes "book_data (queue w) b = Some r"
  shows "(let st = get_status_for_book (queue (process_single_download cfg e b w)) b
          in (st = Some AVAILABLE \<or> st = Some ERROR \<or> st = Some CANCELLED)
             \<and> (\<forall>x. fst (download_attempt cfg e b (on_queue (update_status b PROCESSING) w)) = Inl x
                    \<longrightarrow> st = Some (if cancel_seen e 277 then CANCELLED else ERROR)))
         \<and> (\<forall>b' q'. get_next (queue (process_single_download cfg e b w)) = Some (b', q')
                    \<longrightarrow> b' \<noteq> b)"
proof -
  have st: "get_status_for_book (queue (process_single_download cfg e b w)) b
           = Some (final_status cfg e b w)"
    using assms by (rule status_process_single_download)
  have "b' \<noteq> b" if "get_next (queue (process_single_download cfg e b w)) = Some (b', q')"
    for b' q'
  proof
    assume "b' = b"
    with get_next_queued [OF that] obtain x
      where "x \<in> set (jobs (queue (process_single_download cfg e b w)))" "fst x = b"
        "status (snd x) = QUEUED"
      by blast
    with entries_process_single_download [of x cfg e b w] final_status_terminal [of cfg e b w]
    show False
      by auto
  qed
  with st final_status_terminal [of cfg e b w] final_status_raise [of cfg e b w] show ?thesis
    by (auto simp: Let_def)
qed

theorem worker_always_ends_in_terminal_state_witness:
  "book_data (queue example_world) ''b1'' = Some example_job
   \<and> fst (download_attempt example_cfg (example_env\<lparr>fetch_result := FetchRaised\<rparr>) ''b1''
            (on_queue (update_status ''b1'' PROCESSING) example_world))
       = Inl (Exception ''download_book'')
   \<and> get_status_for_book
         (queue (process_single_download example_cfg
                   (example_env\<lparr>fetch_result := FetchRaised\<rparr>) ''b1'' example_world)) ''b1''
       = Some ERROR"
  using worker_always_ends_in_terminal_state
    [of example_world "''b1''" example_job example_cfg
        "example_env\<lparr>fetch_result := FetchRaised\<rparr>"]
  by (simp add: worker_defs store_defs example_defs book_path_of_def book_name_of_def
      path_defs fstr_def Let_def)

section \<open>The worker: fetch, custom script and publish\<close>

lemma files_progress [simp]:
  "files (foldl (\<lambda>v p. on_queue (update_download_progress b p) v) w ps) = files w"
  by (induction ps arbitrary: w) simp_all

lemma files_download_book:
  "files (snd (download_book e b p w)) =
     (case fetch_file e of None \<Rightarrow> files w | Some c \<Rightarrow> (files w)(p \<mapsto> c))"
  by (auto simp: download_book_def Let_def fun_eq_iff split: option.split fetch_result.split)

lemma fst_download_book:
  "fst (download_book e b p w) =
     (case fetch_result e of FetchRaised \<Rightarrow> Inl (Exception ''download_book'')
      | Fetched ok \<Rightarrow> Inr ok)"
  by (simp add: download_book_def Let_def split: option.split fetch_result.split)

lemma fst_run_custom_script:
  "fst (run_custom_script cfg e p w) =
     (if CUSTOM_SCRIPT cfg \<noteq> [] \<and> script_result e = NotStarted
      then Inl (OSError (CUSTOM_SCRIPT cfg)) else Inr ())"
  by (simp add: run_custom_script_def Let_def split: script_result.split)

lemma download_attempt_reaches_publish:
  assumes "book_data (queue w) b = Some r" and "reaches_publish cfg e"
  shows "download_attempt cfg e b w = publish cfg e b r (staged_world cfg e b r w)"
proof -
  let ?bp = "book_path_of cfg b r"
  let ?w1 = "logger (INFO (''Starting download: '' @ title r)) w"
  obtain w2 where d: "download_book e b ?bp ?w1 = (Inr True, w2)"
    using assms(2) fst_download_book [of e b ?bp ?w1]
    by (cases "download_book e b ?bp ?w1") (simp add: reaches_publish_def)
  obtain w3 where s: "run_custom_script cfg e ?bp w2 = (Inr (), w3)"
    using assms(2) fst_run_custom_script [of cfg e ?bp w2]
    by (cases "run_custom_script cfg e ?bp w2") (auto simp: reaches_publish_def)
  from d s have "staged_world cfg e b r w = w3"
    by (simp add: staged_world_def)
  with d s assms show ?thesis
    by (simp add: download_attempt_def reaches_publish_def Let_def)
qed

lemma publish_result:
  "fst (publish cfg e b r w) = Inr (Some p) \<Longrightarrow> p = final_path_of cfg b r"
  by (auto simp: publish_def Let_def split: prod.splits sum.splits if_splits)

lemma download_attempt_success:
  assumes "fst (download_attempt cfg e b w) = Inr (Some p)"
  shows "reaches_publish cfg e \<and> (\<exists>r. book_data (queue w) b = Some r)"
proof -
  have "(case fetch_result e of FetchRaised \<Rightarrow> False | Fetched ok \<Rightarrow> ok)
        \<and> (CUSTOM_SCRIPT cfg = [] \<or> script_result e \<noteq> NotStarted)
        \<and> \<not> cancel_seen e 132 \<and> \<not> cancel_seen e 147 \<and> \<not> cancel_seen e 157
        \<and> \<not> cancel_seen e 168 \<and> (\<exists>r. book_data (queue w) b = Some r)"
    using assms unfolding download_attempt_def Let_def
    by (auto split: option.splits prod.splits sum.splits if_splits fetch_result.splits
        dest!: arg_cong [where f = fst] simp: fst_download_book fst_run_custom_script)
  then show ?thesis
    by (auto simp: reaches_publish_def split: fetch_result.splits)
qed

lemma move_to_intermediate_ok:
  assumes "move_to_intermediate e bp ip w = (Inr u, w2)" and "bp \<noteq> ip"
    and "files w bp = Some c"
  shows "files w2 ip = Some c \<and> files w2 bp = None
         \<and> (\<forall>p. p \<noteq> bp \<longrightarrow> p \<noteq> ip \<longrightarrow> files w2 p = files w p)"
  using assms unfolding move_to_intermediate_def shutil_move_def shutil_copyfile_def
    os_remove_def Let_def
  by (auto split: io_result.splits if_splits)

lemma move_to_intermediate_first_done:
  "move_first e = IoDone \<Longrightarrow> files w bp = Some c
     \<Longrightarrow> fst (move_to_intermediate e bp ip w) = Inr ()"
  by (simp add: move_to_intermediate_def shutil_move_def)

lemma publish_success:
  assumes "\<not> cancel_seen e 195" and "move_first e = IoDone" and "\<not> rename_fails e"
    and "book_path_of cfg b r \<noteq> intermediate_path_of cfg b"
  shows "fst (publish cfg e b r w) = Inr (Some (final_path_of cfg b r))"
proof (cases "files w (book_path_of cfg b r)")
  case None
  then show ?thesis
    by (simp add: publish_def Let_def)
next
  case (Some c)
  let ?w1 = "logger (INFO (''Moving book to ingest directory: '' @ book_path_of cfg b r
                            @ '' -> '' @ final_path_of cfg b r)) w"
  from Some have f: "files ?w1 (book_path_of cfg b r) = Some c"
    by simp
  obtain w2 where m: "move_to_intermediate e (book_path_of cfg b r)
                        (intermediate_path_of cfg b) ?w1 = (Inr (), w2)"
    using move_to_intermediate_first_done [OF assms(2) f, of "intermediate_path_of cfg b"]
    by (cases "move_to_intermediate e (book_path_of cfg b r) (intermediate_path_of cfg b) ?w1")
      simp
  from move_to_intermediate_ok [OF m assms(4) f]
  have "files w2 (intermediate_path_of cfg b) = Some c"
    by simp
  with Some m assms(1,3) show ?thesis
    by (simp add: publish_def Let_def os_rename_def)
qed

lemma path_join_nonempty [simp]: "path_join d n \<noteq> []"
  by (simp add: path_join_def str_path_def Let_def)

lemma script_result_irrelevant [simp]:
  "download_book (e\<lparr>script_result := x\<rparr>) b p w = download_book e b p w"
  "os_remove (e\<lparr>script_result := x\<rparr>) p w = os_remove e p w"
  "os_rename (e\<lparr>script_result := x\<rparr>) ip fp w = os_rename e ip fp w"
  by (simp_all add: download_book_def os_rename_def os_remove_def
      cong: option.case_cong if_cong)

lemma move_to_intermediate_script_result [simp]:
  "move_to_intermediate (e\<lparr>script_result := x\<rparr>) bp ip w = move_to_intermediate e bp ip w"
  by (simp add: move_to_intermediate_def Let_def
      cong: prod.case_cong sum.case_cong)

lemma publish_script_result [simp]:
  "publish cfg (e\<lparr>script_result := x\<rparr>) b r w = publish cfg e b r w"
  by (simp add: publish_def Let_def cong: prod.case_cong sum.case_cong if_cong)

lemma run_custom_script_exit_status:
  "script_result e = Exited rc \<Longrightarrow>
     run_custom_script cfg (e\<lparr>script_result := Exited 0\<rparr>) p w = run_custom_script cfg e p w"
  by (simp add: run_custom_script_def)

lemma script_exit_status_ignored:
  assumes "script_result e = Exited rc"
  shows "process_single_download cfg e b w
           = process_single_download cfg (e\<lparr>script_result := Exited 0\<rparr>) b w"
proof -
  have "download_attempt cfg (e\<lparr>script_result := Exited 0\<rparr>) b v = download_attempt cfg e b v"
    for v
    by (simp add: download_attempt_def run_custom_script_exit_status [OF assms] Let_def
        cong: prod.case_cong sum.case_cong option.case_cong if_cong)
  then show ?thesis
    by (simp add: process_single_download_def download_book_with_cancellation_def Let_def
        cong: prod.case_cong sum.case_cong option.case_cong if_cong)
qed

lemma status_available:
  assumes job: "book_data (queue w) b = Some r" and rp: "reaches_publish cfg e"
    and ok: "\<not> cancel_seen e 195" "\<not> cancel_seen e 277" "move_first e = IoDone"
      "\<not> rename_fails e" "book_path_of cfg b r \<noteq> intermediate_path_of cfg b"
  shows "get_status_for_book (queue (process_single_download cfg e b w)) b = Some AVAILABLE"
proof -
  let ?w1 = "on_queue (update_status b PROCESSING) w"
  let ?r1 = "r\<lparr>status := PROCESSING\<rparr>"
  from job have j1: "book_data (queue ?w1) b = Some ?r1"
    by (simp add: book_data_update_status)
  have "fst (download_attempt cfg e b ?w1) = Inr (Some (final_path_of cfg b ?r1))"
    unfolding download_attempt_reaches_publish [OF j1 rp]
    by (rule publish_success) (use ok in simp_all)
  then have "truthy (fst (download_book_with_cancellation cfg e b ?w1))"
    by (cases "download_attempt cfg e b ?w1")
      (simp add: download_book_with_cancellation_def truthy_def final_path_of_def)
  with ok(2) status_process_single_download [OF job, of cfg e] show ?thesis
    by (simp add: final_status_def)
qed

lemma status_script_not_started:
  assumes job: "book_data (queue w) b = Some r"
    and "CUSTOM_SCRIPT cfg \<noteq> []" "script_result e = NotStarted"
    and "\<not> cancel_seen e 132" "\<not> cancel_seen e 147" "fetch_result e = Fetched True"
    and "\<not> cancel_seen e 157" "\<not> cancel_seen e 168"
  shows "get_status_for_book (queue (process_single_download cfg e b w)) b
           = Some (if cancel_seen e 277 then CANCELLED else ERROR)"
proof -
  let ?w1 = "on_queue (update_status b PROCESSING) w"
  let ?r1 = "r\<lparr>status := PROCESSING\<rparr>"
  let ?bp = "book_path_of cfg b ?r1"
  let ?w2 = "logger (INFO (''Starting download: '' @ title ?r1)) ?w1"
  from job have j1: "book_data (queue ?w1) b = Some ?r1"
    by (simp add: book_data_update_status)
  obtain w3 where d: "download_book e b ?bp ?w2 = (Inr True, w3)"
    using assms(6) fst_download_book [of e b ?bp ?w2]
    by (cases "download_book e b ?bp ?w2") simp
  obtain w4 where s: "run_custom_script cfg e ?bp w3 = (Inl (OSError (CUSTOM_SCRIPT cfg)), w4)"
    using assms(2,3) fst_run_custom_script [of cfg e ?bp w3]
    by (cases "run_custom_script cfg e ?bp w3") simp
  from j1 d s assms(4,5,7,8)
  have "fst (download_attempt cfg e b ?w1) = Inl (OSError (CUSTOM_SCRIPT cfg))"
    by (simp add: download_attempt_def Let_def)
  from final_status_raise [OF this] status_process_single_download [OF job, of cfg e]
  show ?thesis
    by simp
qed

text \<open>
  C8, as stated, fails: when the custom script cannot be started, \<^verbatim>\<open>subprocess.run\<close> raises,
  the handler of line 205 returns nothing, and the job ends ERROR although the fetch
  succeeded.
\<close>

theorem unrunnable_custom_script_is_fatal:
  "fetch_result example_env = Fetched True
   \<and> get_status_for_book
        (queue (process_single_download (example_cfg\<lparr>CUSTOM_SCRIPT := ''/hook.sh''\<rparr>)
                  (example_env\<lparr>script_result := NotStarted\<rparr>) ''b1'' example_world)) ''b1''
       = Some ERROR"
  by (simp add: worker_defs store_defs example_defs book_path_of_def book_name_of_def
      path_defs fstr_def Let_def)

text \<open>
  C8, amended. A custom script that is started is not fatal, whatever its exit status:
  the worker never looks at the exit status, so a failing script changes neither the
  outcome nor the log; when the fetch succeeded, no cancellation is seen and the move
  and the rename succeed, the job ends AVAILABLE. A custom script that cannot be started
  makes the job end ERROR (CANCELLED when the cancel flag is set at line 277).
\<close>

theorem started_custom_script_is_not_fatal:
  "(script_result e = Exited rc \<longrightarrow>
      process_single_download cfg e b w
        = process_single_download cfg (e\<lparr>script_result := Exited 0\<rparr>) b w)
   \<and> (book_data (queue w) b = Some r \<and> script_result e = Exited rc
        \<and> reaches_publish cfg e \<and> \<not> cancel_seen e 195 \<and> \<not> cancel_seen e 277
        \<and> move_first e = IoDone \<and> \<not> rename_fails e
        \<and> book_path_of cfg b r \<noteq> intermediate_path_of cfg b
      \<longrightarrow> get_status_for_book (queue (process_single_download cfg e b w)) b = Some AVAILABLE)
   \<and> (book_data (queue w) b = Some r \<and> CUSTOM_SCRIPT cfg \<noteq> [] \<and> script_result e = NotStarted
        \<and> \<not> cancel_seen e 132 \<and> \<not> cancel_seen e 147 \<and> fetch_result e = Fetched True
        \<and> \<not> cancel_seen e 157 \<and> \<not> cancel_seen e 168
      \<longrightarrow> get_status_for_book (queue (process_single_download cfg e b w)) b
            = Some (if cancel_seen e 277 then CANCELLED else ERROR))"
  using script_exit_status_ignored [of e rc cfg b w] status_available [of w b r cfg e]
    status_script_not_started [of w b r cfg e]
  by blast

theorem started_custom_script_is_not_fatal_witness:
  "book_data (queue example_world) ''b1'' = Some example_job
   \<and> script_result (example_env\<lparr>script_result := Exited 1\<rparr>) = Exited 1
   \<and> reaches_publish (example_cfg\<lparr>CUSTOM_SCRIPT := ''/hook.sh''\<rparr>)
        (example_env\<lparr>script_result := Exited 1\<rparr>)
   \<and> book_path_of (example_cfg\<lparr>CUSTOM_SCRIPT := ''/hook.sh''\<rparr>) ''b1'' example_job
        \<noteq> intermediate_path_of (example_cfg\<lparr>CUSTOM_SCRIPT := ''/hook.sh''\<rparr>) ''b1''
   \<and> get_status_for_book
        (queue (process_single_download (example_cfg\<lparr>CUSTOM_SCRIPT := ''/hook.sh''\<rparr>)
                  (example_env\<lparr>script_result := Exited 1\<rparr>) ''b1'' example_world)) ''b1''
       = Some AVAILABLE"
  using started_custom_script_is_not_fatal
    [of "example_env\<lparr>script_result := Exited 1\<rparr>" 1
        "example_cfg\<lparr>CUSTOM_SCRIPT := ''/hook.sh''\<rparr>" "''b1''" example_world example_job,
      THEN conjunct2, THEN conjunct1]
  by (simp add: example_defs reaches_publish_def book_data_def book_path_of_def
      book_name_of_def intermediate_path_of_def path_defs fstr_def)

section \<open>The worker: what appears at the public path\<close>

lemma staged_world_status [simp]:
  "staged_world cfg e b (r\<lparr>status := st\<rparr>) w = staged_world cfg e b r w"
  by (simp add: staged_world_def)

lemma evolves_staged_world:
  assumes "evolves R w w'" "files_closed R A" "book_path_of cfg b r \<in> A"
    and "queue_closed R {update_download_progress b x |x. x \<in> set (fetch_progress e)}"
  shows "evolves R w (staged_world cfg e b r w')"
  unfolding staged_world_def
  by (intro evolves_run_custom_script [OF _ assms(2,3)] evolves_download_book [OF _ assms(2,3,4)]
      evolves_logger assms(1))

lemma public_is_files_closed: "files_closed (preserves (public_is fp X c)) (- {fp})"
  by (simp add: files_closed_def preserves_def public_is_def)

lemma public_is_queue_closed: "queue_closed (preserves (public_is fp X c)) G"
  by (simp add: queue_closed_def preserves_def public_is_def)

lemma public_unchanged_files_closed: "files_closed (preserves (public_unchanged fp X)) (- {fp})"
  by (simp add: files_closed_def preserves_def public_unchanged_def)

lemma public_unchanged_queue_closed: "queue_closed (preserves (public_unchanged fp X)) G"
  by (simp add: queue_closed_def preserves_def public_unchanged_def)

lemma evolves_publish_staged:
  assumes ev: "evolves (preserves (public_is (final_path_of cfg b r) X c)) w0 w"
    and staged: "files w (book_path_of cfg b r) = Some c"
    and ne: "book_path_of cfg b r \<noteq> final_path_of cfg b r"
      "intermediate_path_of cfg b \<noteq> final_path_of cfg b r"
      "book_path_of cfg b r \<noteq> intermediate_path_of cfg b"
  shows "evolves (preserves (public_is (final_path_of cfg b r) X c)) w0
           (snd (publish cfg e b r w))
         \<and> (\<forall>p. fst (publish cfg e b r w) = Inr (Some p)
               \<longrightarrow> files (snd (publish cfg e b r w)) (final_path_of cfg b r) = Some c)"
proof -
  let ?bp = "book_path_of cfg b r" and ?ip = "intermediate_path_of cfg b"
  let ?fp = "final_path_of cfg b r"
  let ?R = "preserves (public_is ?fp X c)"
  let ?w1 = "logger (INFO (''Moving book to ingest directory: '' @ ?bp @ '' -> '' @ ?fp)) w"
  obtain m w2 where m: "move_to_intermediate e ?bp ?ip ?w1 = (m, w2)"
    by (cases "move_to_intermediate e ?bp ?ip ?w1")
  have "evolves ?R w0 (snd (move_to_intermediate e ?bp ?ip ?w1))"
    by (rule evolves_move_to_intermediate [OF evolves_logger [OF ev] public_is_files_closed])
      (use ne in simp_all)
  with m have e2: "evolves ?R w0 w2"
    by simp
  show ?thesis
  proof (cases m)
    case (Inl x)
    with m staged e2 show ?thesis
      by (simp add: publish_def Let_def)
  next
    case (Inr u)
    from staged have "files ?w1 ?bp = Some c"
      by simp
    with m Inr ne(3) have ip: "files w2 ?ip = Some c"
      using move_to_intermediate_ok [of e ?bp ?ip ?w1 u w2 c] by simp
    show ?thesis
    proof (cases "cancel_seen e 195")
      case True
      have "evolves ?R w0 (unlink_if_exists ?ip
              (logger (INFO (''Download cancelled before final rename: '' @ b)) w2))"
        by (rule evolves_unlink_if_exists [OF evolves_logger [OF e2] public_is_files_closed])
          (use ne in simp)
      with m Inr staged True show ?thesis
        by (simp add: publish_def Let_def)
    next
      case False
      show ?thesis
      proof (cases "rename_fails e")
        case True
        with m Inr staged \<open>\<not> cancel_seen e 195\<close> ip e2 show ?thesis
          by (simp add: publish_def Let_def os_rename_def)
      next
        case nf: False
        let ?w3 = "on_files (\<lambda>f. (f(?fp \<mapsto> c))(?ip := None)) w2"
        have "evolves ?R w0 ?w3"
          by (rule evolves_on_files [OF e2]) (use ne in \<open>simp add: preserves_def public_is_def\<close>)
        moreover have "files ?w3 ?fp = Some c"
          using ne by simp
        ultimately show ?thesis
          using m Inr staged \<open>\<not> cancel_seen e 195\<close> ip nf
          by (simp add: publish_def Let_def os_rename_def evolves_logger)
      qed
    qed
  qed
qed

lemma publish_nothing_staged:
  "files w (book_path_of cfg b r) = None \<Longrightarrow> snd (publish cfg e b r w) = w"
  by (simp add: publish_def Let_def)

lemma publish_status [simp]:
  "publish cfg e b (r\<lparr>status := st\<rparr>) w = publish cfg e b r w"
  by (simp add: publish_def Let_def cong: prod.case_cong sum.case_cong if_cong)

lemma available_run:
  assumes job: "book_data (queue w) b = Some r"
    and avail: "get_status_for_book (queue (process_single_download cfg e b w)) b
                  = Some AVAILABLE"
  defines "sw \<equiv> staged_world cfg e b r (on_queue (update_status b PROCESSING) w)"
  shows "fst (publish cfg e b r sw) = Inr (Some (final_path_of cfg b r))
         \<and> (\<exists>msg. process_single_download cfg e b w
               = logger msg (on_queue (update_status b AVAILABLE)
                   (on_queue (update_download_path b (final_path_of cfg b r))
                      (snd (publish cfg e b r sw)))))"
proof -
  let ?w1 = "on_queue (update_status b PROCESSING) w"
  let ?r1 = "r\<lparr>status := PROCESSING\<rparr>"
  from job have j1: "book_data (queue ?w1) b = Some ?r1"
    by (simp add: book_data_update_status)
  from avail status_process_single_download [OF job, of cfg e]
  have fs: "final_status cfg e b w = AVAILABLE"
    by simp
  then have n277: "\<not> cancel_seen e 277"
    and tr: "truthy (fst (download_book_with_cancellation cfg e b ?w1))"
    by (auto simp: final_status_def split: if_splits)
  obtain res w2 where da: "download_attempt cfg e b ?w1 = (res, w2)"
    by (cases "download_attempt cfg e b ?w1")
  with tr obtain p where res: "res = Inr (Some p)" and p: "p \<noteq> []"
    by (auto simp: download_book_with_cancellation_def truthy_def
        split: sum.splits option.splits)
  from da res have "fst (download_attempt cfg e b ?w1) = Inr (Some p)"
    by simp
  then have rp: "reaches_publish cfg e"
    using download_attempt_success by blast
  have eq: "download_attempt cfg e b ?w1 = publish cfg e b r sw"
    using download_attempt_reaches_publish [OF j1 rp]
    by (simp add: sw_def)
  with da res have pub: "publish cfg e b r sw = (Inr (Some p), w2)"
    by simp
  then have pf: "p = final_path_of cfg b r"
    using publish_result [of cfg e b r sw p] by simp
  from pub pf eq n277 p show ?thesis
    by (auto simp: process_single_download_def download_book_with_cancellation_def Let_def
        truthy_def)
qed

text \<open>
  C3, as stated, fails: a custom script that removes (or moves away) the staging file
  leaves nothing to publish; line 181 then skips the move, line 204 still returns the
  final path, and the job ends AVAILABLE with a download path at which no file exists.
\<close>

theorem available_without_published_file:
  "get_status_for_book
     (queue (process_single_download (example_cfg\<lparr>CUSTOM_SCRIPT := ''/hook.sh''\<rparr>)
               (example_env\<lparr>script_file := (\<lambda>c. None)\<rparr>) ''b1'' example_world)) ''b1''
     = Some AVAILABLE
   \<and> map_option download_path
       (book_data
          (queue (process_single_download (example_cfg\<lparr>CUSTOM_SCRIPT := ''/hook.sh''\<rparr>)
               (example_env\<lparr>script_file := (\<lambda>c. None)\<rparr>) ''b1'' example_world)) ''b1'')
     = Some (Some ''/ingest/b1.epub'')
   \<and> files (process_single_download (example_cfg\<lparr>CUSTOM_SCRIPT := ''/hook.sh''\<rparr>)
               (example_env\<lparr>script_file := (\<lambda>c. None)\<rparr>) ''b1'' example_world)
        ''/ingest/b1.epub'' = None"
  by (simp add: worker_defs store_defs example_defs book_path_of_def book_name_of_def
      path_defs fstr_def Let_def final_path_of_def)

text \<open>
  C3, amended. For a job whose worker run ends AVAILABLE, the download path is the final
  ingest path. If the staging file exists when the publish step starts (line 181), then
  after the run the public path holds exactly the content of that staging file, and in
  every state of the run the public path holds either what it held before the run or
  that content: partial copies appear under the intermediate name only, and the public
  path changes in the one step of the rename. If the staging file does not exist at that
  point, nothing is published and the public path stays as it was. (The staging, the
  intermediate and the public path are taken to differ.)
\<close>

theorem published_file_is_the_staged_file:
  assumes "book_data (queue w) b = Some r"
    and "get_status_for_book (queue (process_single_download cfg e b w)) b = Some AVAILABLE"
    and "book_path_of cfg b r \<noteq> final_path_of cfg b r"
    and "intermediate_path_of cfg b \<noteq> final_path_of cfg b r"
    and "book_path_of cfg b r \<noteq> intermediate_path_of cfg b"
  shows "map_option download_path (book_data (queue (process_single_download cfg e b w)) b)
           = Some (Some (final_path_of cfg b r))
         \<and> (case files (staged_world cfg e b r (on_queue (update_status b PROCESSING) w))
                    (book_path_of cfg b r) of
               Some c \<Rightarrow>
                 files (process_single_download cfg e b w) (final_path_of cfg b r) = Some c
                 \<and> during (public_is (final_path_of cfg b r) (files w (final_path_of cfg b r)) c)
                      w (process_single_download cfg e b w)
             | None \<Rightarrow>
                 files (process_single_download cfg e b w) (final_path_of cfg b r)
                   = files w (final_path_of cfg b r)
                 \<and> during (public_unchanged (final_path_of cfg b r)
                             (files w (final_path_of cfg b r)))
                      w (process_single_download cfg e b w))"
proof -
  let ?w1 = "on_queue (update_status b PROCESSING) w"
  let ?sw = "staged_world cfg e b r ?w1"
  let ?fp = "final_path_of cfg b r" and ?bp = "book_path_of cfg b r"
  let ?w' = "process_single_download cfg e b w"
  from available_run [OF assms(1,2)] obtain msg
    where pub: "fst (publish cfg e b r ?sw) = Inr (Some ?fp)"
      and shape: "?w' = logger msg (on_queue (update_status b AVAILABLE)
                   (on_queue (update_download_path b ?fp) (snd (publish cfg e b r ?sw))))"
    by blast
  from assms(2) obtain r' where r': "book_data (queue ?w') b = Some r'"
    by (auto simp: get_status_for_book_def)
  then have path: "map_option download_path (book_data (queue ?w') b) = Some (Some ?fp)"
    unfolding shape
    by (auto simp: book_data_update_status book_data_update_download_path)
  have rest: "evolves R w ?w'" if "evolves R w (snd (publish cfg e b r ?sw))"
    and "queue_closed R UNIV" for R
    unfolding shape using that(2)
    by (intro evolves_logger evolves_on_queue that(1)) (simp_all add: queue_closed_def)
  have first: "evolves R w ?sw" if "files_closed R (- {?fp})" and "queue_closed R UNIV" for R
  proof (rule evolves_staged_world [OF _ that(1)])
    show "evolves R w ?w1"
      using that(2) by (intro evolves_on_queue evolves_refl) (simp add: queue_closed_def)
    show "?bp \<in> - {?fp}"
      using assms(3) by simp
    show "queue_closed R {update_download_progress b x |x. x \<in> set (fetch_progress e)}"
      using that(2) by (simp add: queue_closed_def)
  qed
  show ?thesis
  proof (cases "files ?sw ?bp")
    case None
    let ?P = "public_unchanged ?fp (files w ?fp)"
    have "evolves (preserves ?P) w ?sw"
      by (rule first [OF public_unchanged_files_closed public_unchanged_queue_closed])
    then have "evolves (preserves ?P) w (snd (publish cfg e b r ?sw))"
      using None by (simp add: publish_nothing_staged)
    then have "evolves (preserves ?P) w ?w'"
      by (rule rest) (rule public_unchanged_queue_closed)
    from evolves_during [OF this] have "during ?P w ?w' \<and> ?P (queue ?w', files ?w')"
      by (simp add: public_unchanged_def)
    with None path show ?thesis
      by (simp add: public_unchanged_def)
  next
    case (Some c)
    let ?P = "public_is ?fp (files w ?fp) c"
    have "evolves (preserves ?P) w ?sw"
      by (rule first [OF public_is_files_closed public_is_queue_closed])
    from evolves_publish_staged [OF this Some assms(3,4,5), of e] pub
    have ev: "evolves (preserves ?P) w (snd (publish cfg e b r ?sw))"
      and fin: "files (snd (publish cfg e b r ?sw)) ?fp = Some c"
      by simp_all
    from ev have "evolves (preserves ?P) w ?w'"
      by (rule rest) (rule public_is_queue_closed)
    from evolves_during [OF this] have "during ?P w ?w'"
      by (simp add: public_is_def)
    moreover from fin have "files ?w' ?fp = Some c"
      unfolding shape by simp
    ultimately show ?thesis
      using Some path by simp
  qed
qed

theorem published_file_is_the_staged_file_witness:
  "book_data (queue example_world) ''b1'' = Some example_job
   \<and> get_status_for_book
        (queue (process_single_download example_cfg example_env ''b1'' example_world)) ''b1''
       = Some AVAILABLE
   \<and> final_path_of example_cfg ''b1'' example_job = ''/ingest/b1.epub''
   \<and> files (staged_world example_cfg example_env ''b1'' example_job
              (on_queue (update_status ''b1'' PROCESSING) example_world))
        (book_path_of example_cfg ''b1'' example_job) = Some (Complete ''data'')
   \<and> files (process_single_download example_cfg example_env ''b1'' example_world)
        ''/ingest/b1.epub'' = Some (Complete ''data'')
   \<and> during (public_is ''/ingest/b1.epub'' None (Complete ''data'')) example_world
        (process_single_download example_cfg example_env ''b1'' example_world)"
proof -
  have 1: "book_data (queue example_world) ''b1'' = Some example_job"
    by (simp add: example_defs book_data_def)
  have 2: "get_status_for_book
        (queue (process_single_download example_cfg example_env ''b1'' example_world)) ''b1''
       = Some AVAILABLE"
    by (simp add: worker_defs store_defs example_defs book_path_of_def book_name_of_def
        path_defs fstr_def Let_def final_path_of_def intermediate_path_of_def)
  have 3: "final_path_of example_cfg ''b1'' example_job = ''/ingest/b1.epub''"
    "book_path_of example_cfg ''b1'' example_job = ''/tmp/cwa/b1.epub''"
    "intermediate_path_of example_cfg ''b1'' = ''/ingest/b1.crdownload''"
    by (simp_all add: example_defs final_path_of_def book_path_of_def book_name_of_def
        intermediate_path_of_def path_defs fstr_def)
  have 4: "files (staged_world example_cfg example_env ''b1'' example_job
              (on_queue (update_status ''b1'' PROCESSING) example_world))
        (book_path_of example_cfg ''b1'' example_job) = Some (Complete ''data'')"
    by (simp add: staged_world_def worker_defs store_defs example_defs book_path_of_def
        book_name_of_def path_defs fstr_def Let_def)
  have 5: "files example_world ''/ingest/b1.epub'' = None"
    by (simp add: example_defs)
  from published_file_is_the_staged_file [OF 1 2] 1 2 3 4 5 show ?thesis
    by simp
qed

section \<open>The worker: cancellation\<close>





section \<open>The scheduler\<close>

lemma min_job_least:
  "min_job xs = Some x \<Longrightarrow> x \<in> set xs \<and> (\<forall>y \<in> set xs. job_key x \<le> job_key y)"
proof (induction xs arbitrary: x)
  case Nil
  then show ?case by simp
next
  case (Cons a xs)
  show ?case
  proof (cases "min_job xs")
    case None
    then have "xs = []"
      by (cases xs) (auto split: option.splits if_splits)
    with Cons.prems show ?thesis
      by simp
  next
    case (Some y)
    with Cons.IH [of y] Cons.prems show ?thesis
      by (auto split: if_splits)
  qed
qed

lemma min_job_None: "min_job xs = None \<longleftrightarrow> xs = []"
  by (cases xs) (auto split: option.splits if_splits)

lemma insort_lex:
  assumes "sorted_wrt (<) (map job_key ys)"
    and "\<forall>y \<in> set ys. insertionSeq (snd x) < insertionSeq (snd y)"
  shows "sorted_wrt (<) (map job_key (insort_key (\<lambda>z. priority (snd z)) x ys))"
  using assms
proof (induction ys)
  case Nil
  then show ?case by simp
next
  case (Cons y ys)
  show ?case
  proof (cases "priority (snd x) \<le> priority (snd y)")
    case True
    have "job_key x < job_key y"
      using True Cons.prems(2) by (auto simp: job_key_def less_prod_def')
    moreover have "\<forall>z \<in> set ys. job_key y < job_key z"
      using Cons.prems(1) by simp
    ultimately show ?thesis
      using True Cons.prems(1) by (auto simp: order.strict_trans)
  next
    case False
    then have "job_key y < job_key x"
      by (auto simp: job_key_def less_prod_def')
    with False Cons show ?thesis
      by (auto simp: set_insort_key)
  qed
qed

lemma stable_sort_lex:
  "sorted_wrt (<) (map (\<lambda>x. insertionSeq (snd x)) xs)
     \<Longrightarrow> sorted_wrt (<) (map job_key (sort_key (\<lambda>z. priority (snd z)) xs))"
proof (induction xs)
  case Nil
  then show ?case by simp
next
  case (Cons x xs)
  then show ?case
    by (auto intro!: insort_lex)
qed

lemma strictly_sorted_unique:
  fixes k :: "'a \<Rightarrow> 'b::linorder"
  assumes "sorted_wrt (<) (map k as)" and "sorted_wrt (<) (map k bs)" and "set as = set bs"
  shows "as = bs"
proof -
  have "map k as = map k bs"
  proof (rule sorted_distinct_set_unique)
    show "sorted (map k as)" "distinct (map k as)"
      using assms(1) by (simp_all add: strict_sorted_iff)
    show "sorted (map k bs)" "distinct (map k bs)"
      using assms(2) by (simp_all add: strict_sorted_iff)
    show "set (map k as) = set (map k bs)"
      using assms(3) by simp
  qed
  moreover from assms(1) have "inj_on k (set as)"
    by (simp add: strict_sorted_iff distinct_map)
  ultimately show ?thesis
    using assms(3) by (auto intro: map_inj_on)
qed

lemma queued_update_status:
  "queued (update_status b PROCESSING q) = filter (\<lambda>y. fst y \<noteq> b) (queued q)"
proof -
  have "filter (\<lambda>x. status (snd x) = QUEUED)
          (map (\<lambda>(k, r). (k, if k = b then r\<lparr>status := PROCESSING\<rparr> else r)) js)
        = filter (\<lambda>y. fst y \<noteq> b) (filter (\<lambda>x. status (snd x) = QUEUED) js)" for js
    by (induction js) auto
  then show ?thesis
    by (simp add: queued_def update_status_def modify_def)
qed

lemma seq_ordered_update_status:
  assumes "seq_ordered q"
  shows "seq_ordered (update_status b st q)"
proof -
  have "map (\<lambda>x. insertionSeq (snd x)) (jobs (update_status b st q))
        = map (\<lambda>x. insertionSeq (snd x)) (jobs q)"
    by (auto simp: update_status_def modify_def)
  with assms show ?thesis
    by (simp add: seq_ordered_def update_status_def keys_modify)
qed

lemma seq_ordered_queued:
  assumes "seq_ordered q"
  shows "sorted_wrt (<) (map (\<lambda>x. insertionSeq (snd x)) (queued q))"
    and "x \<in> set (queued q) \<Longrightarrow> y \<in> set (queued q) \<Longrightarrow> fst x = fst y \<Longrightarrow> x = y"
proof -
  from assms show "sorted_wrt (<) (map (\<lambda>x. insertionSeq (snd x)) (queued q))"
    by (simp add: seq_ordered_def queued_def sorted_wrt_map sorted_wrt_filter)
  from assms have "inj_on fst (set (jobs q))"
    by (simp add: seq_ordered_def distinct_map)
  then show "x \<in> set (queued q) \<Longrightarrow> y \<in> set (queued q) \<Longrightarrow> fst x = fst y \<Longrightarrow> x = y"
    by (auto simp: queued_def dest: inj_onD)
qed

lemma sort_queued_head:
  assumes so: "seq_ordered q" and m: "min_job (queued q) = Some x"
  shows "sort_key (\<lambda>z. priority (snd z)) (queued q)
           = x # sort_key (\<lambda>z. priority (snd z)) (queued (update_status (fst x) PROCESSING q))"
proof (rule strictly_sorted_unique [where k = job_key])
  let ?q' = "update_status (fst x) PROCESSING q"
  let ?prio = "\<lambda>z. priority (snd z)"
  from min_job_least [OF m] have x: "x \<in> set (queued q)"
    and least: "\<forall>y \<in> set (queued q). job_key x \<le> job_key y"
    by simp_all
  show "sorted_wrt (<) (map job_key (sort_key ?prio (queued q)))"
    by (rule stable_sort_lex) (rule seq_ordered_queued(1) [OF so])
  have lex: "sorted_wrt (<) (map job_key (sort_key ?prio (queued q)))"
    by (rule stable_sort_lex) (rule seq_ordered_queued(1) [OF so])
  then have inj: "inj_on job_key (set (queued q))"
    by (simp add: strict_sorted_iff distinct_map)
  have "y = x" if "y \<in> set (queued q)" "fst y = fst x" for y
    using seq_ordered_queued(2) [OF so that(1) x that(2)] .
  then have rest: "set (queued ?q') = set (queued q) - {x}"
    by (auto simp: queued_update_status)
  have "sorted_wrt (<) (map job_key (sort_key ?prio (queued ?q')))"
    by (rule stable_sort_lex)
      (rule seq_ordered_queued(1) [OF seq_ordered_update_status [OF so]])
  moreover have "job_key x < job_key y" if "y \<in> set (queued ?q')" for y
  proof -
    from that rest have y: "y \<in> set (queued q)" "y \<noteq> x"
      by auto
    with least have "job_key x \<le> job_key y"
      by blast
    moreover from inj x y have "job_key x \<noteq> job_key y"
      by (auto dest: inj_onD)
    ultimately show ?thesis
      by simp
  qed
  ultimately show "sorted_wrt (<) (map job_key (x # sort_key ?prio (queued ?q')))"
    by auto
  show "set (sort_key ?prio (queued q)) = set (x # sort_key ?prio (queued ?q'))"
    using rest x by auto
qed

lemma get_next_n_sorted:
  "seq_ordered q \<Longrightarrow>
     fst (get_next_n n q) = take n (map fst (sort_key (\<lambda>z. priority (snd z)) (queued q)))"
proof (induction n arbitrary: q)
  case 0
  then show ?case by simp
next
  case (Suc n)
  show ?case
  proof (cases "min_job (queued q)")
    case None
    then show ?thesis
      by (simp add: get_next_def min_job_None)
  next
    case (Some x)
    let ?q' = "update_status (fst x) PROCESSING q"
    from Suc.IH [OF seq_ordered_update_status [OF Suc.prems], of "fst x"]
    have "fst (get_next_n n ?q')
            = take n (map fst (sort_key (\<lambda>z. priority (snd z)) (queued ?q')))" .
    with Some sort_queued_head [OF Suc.prems Some] show ?thesis
      by (cases "get_next_n n ?q'") (simp add: get_next_def)
  qed
qed

lemma add_invariant:
  assumes so: "seq_ordered q"
    and qd: "\<forall>x \<in> set (jobs q). status (snd x) = QUEUED \<and> insertionSeq (snd x) < next_seq q"
  shows "seq_ordered (add b ttl fmt prio q)"
    and "\<forall>x \<in> set (jobs (add b ttl fmt prio q)).
           status (snd x) = QUEUED \<and> insertionSeq (snd x) < next_seq (add b ttl fmt prio q)"
    and "map (\<lambda>x. (fst x, priority (snd x))) (jobs (add b ttl fmt prio q))
           = (if b \<in> fst ` set (jobs q) then map (\<lambda>x. (fst x, priority (snd x))) (jobs q)
              else map (\<lambda>x. (fst x, priority (snd x))) (jobs q) @ [(b, prio)])"
proof -
  show "seq_ordered (add b ttl fmt prio q)"
  proof (cases "book_data q b")
    case None
    then have "b \<notin> fst ` set (jobs q)"
      by (simp add: book_data_def map_of_eq_None_iff)
    with None so qd show ?thesis
      by (auto simp: add_def seq_ordered_def sorted_wrt_append fresh_job_def)
  next
    case (Some r)
    then have "(b, r) \<in> set (jobs q)"
      by (auto simp: book_data_def dest: map_of_SomeD)
    with qd have "status r = QUEUED"
      by auto
    with Some so show ?thesis
      by (simp add: add_def)
  qed
  show "\<forall>x \<in> set (jobs (add b ttl fmt prio q)).
           status (snd x) = QUEUED \<and> insertionSeq (snd x) < next_seq (add b ttl fmt prio q)"
  proof (cases "book_data q b")
    case None
    with qd show ?thesis
      by (auto simp: add_def fresh_job_def less_Suc_eq)
  next
    case (Some r)
    then have "(b, r) \<in> set (jobs q)"
      by (auto simp: book_data_def dest: map_of_SomeD)
    with qd have "status r = QUEUED"
      by auto
    with Some qd show ?thesis
      by (simp add: add_def)
  qed
  show "map (\<lambda>x. (fst x, priority (snd x))) (jobs (add b ttl fmt prio q))
           = (if b \<in> fst ` set (jobs q) then map (\<lambda>x. (fst x, priority (snd x))) (jobs q)
              else map (\<lambda>x. (fst x, priority (snd x))) (jobs q) @ [(b, prio)])"
  proof (cases "book_data q b")
    case None
    then have "b \<notin> fst ` set (jobs q)"
      by (simp add: book_data_def map_of_eq_None_iff)
    with None show ?thesis
      by (simp add: add_def fresh_job_def)
  next
    case (Some r)
    then have in_q: "(b, r) \<in> set (jobs q)"
      by (auto simp: book_data_def dest: map_of_SomeD)
    with qd have "status r = QUEUED"
      by auto
    moreover from in_q have "b \<in> fst ` set (jobs q)"
      by force
    ultimately show ?thesis
      using Some by (simp add: add_def)
  qed
qed

lemma enqueue_all_invariant:
  "seq_ordered (enqueue_all ops empty_queue)
   \<and> (\<forall>x \<in> set (jobs (enqueue_all ops empty_queue)).
         status (snd x) = QUEUED
         \<and> insertionSeq (snd x) < next_seq (enqueue_all ops empty_queue))
   \<and> map (\<lambda>x. (fst x, priority (snd x))) (jobs (enqueue_all ops empty_queue))
       = first_enqueues ops"
proof (induction ops rule: rev_induct)
  case Nil
  show ?case
    by (simp add: enqueue_all_def first_enqueues_def empty_queue_def seq_ordered_def)
next
  case (snoc op ops)
  obtain b ttl fmt prio where op: "op = (b, ttl, fmt, prio)"
    by (cases op)
  let ?q = "enqueue_all ops empty_queue"
  have step: "enqueue_all (ops @ [op]) empty_queue = add b ttl fmt prio ?q"
    by (simp add: enqueue_all_def op)
  have fe: "first_enqueues (ops @ [op])
              = (if b \<in> fst ` set (first_enqueues ops) then first_enqueues ops
                 else first_enqueues ops @ [(b, prio)])"
    by (simp add: first_enqueues_def op)
  from snoc have so: "seq_ordered ?q"
    and qd: "\<forall>x \<in> set (jobs ?q). status (snd x) = QUEUED \<and> insertionSeq (snd x) < next_seq ?q"
    and m: "map (\<lambda>x. (fst x, priority (snd x))) (jobs ?q) = first_enqueues ops"
    by simp_all
  have "fst ` set (first_enqueues ops) = fst ` set (jobs ?q)"
    unfolding m [symmetric] by (simp add: image_image)
  with add_invariant [OF so qd, of b ttl fmt prio] m fe show ?case
    unfolding step by simp
qed

lemma insort_key_map:
  "insort_key f (g x) (map g ys) = map g (insort_key (\<lambda>z. f (g z)) x ys)"
  by (induction ys) simp_all

lemma sort_key_map: "sort_key f (map g xs) = map g (sort_key (\<lambda>z. f (g z)) xs)"
  by (induction xs) (simp_all add: insort_key_map)

text \<open>
  C6. After any sequence of enqueues on an empty store, \<open>n\<close> successive calls of
  \<^verbatim>\<open>get_next\<close> hand out the first \<open>n\<close> jobs of the stable sort by priority of the jobs in
  the order of their first enqueue: priorities never decrease from one call to the next,
  and jobs of equal priority come out in the order in which they were enqueued.
  (\<open>sort_key\<close> is insertion sort, which keeps the order of elements with equal keys.)
\<close>

theorem get_next_by_priority_then_enqueue_order:
  "fst (get_next_n n (enqueue_all ops empty_queue))
     = take n (map fst (sort_key snd (first_enqueues ops)))"
proof -
  let ?q = "enqueue_all ops empty_queue"
  from enqueue_all_invariant [of ops] have so: "seq_ordered ?q"
    and qd: "\<forall>x \<in> set (jobs ?q). status (snd x) = QUEUED"
    and m: "first_enqueues ops = map (\<lambda>x. (fst x, priority (snd x))) (jobs ?q)"
    by simp_all
  from qd have "queued ?q = jobs ?q"
    by (simp add: queued_def)
  with get_next_n_sorted [OF so, of n]
  have "fst (get_next_n n ?q) = take n (map fst (sort_key (\<lambda>z. priority (snd z)) (jobs ?q)))"
    by simp
  also have "map fst (sort_key (\<lambda>z. priority (snd z)) (jobs ?q))
               = map fst (sort_key snd (first_enqueues ops))"
    unfolding m by (simp add: sort_key_map comp_def)
  finally show ?thesis .
qed

theorem get_next_by_priority_then_enqueue_order_witness:
  "fst (get_next_n 3
         (enqueue_all [(''A'', ''Dune'', Some ''epub'', 5), (''B'', ''Emma'', Some ''epub'', 1),
                       (''C'', ''Ulysses'', Some ''pdf'', 5)] empty_queue))
     = [''B'', ''A'', ''C'']"
  using get_next_by_priority_then_enqueue_order
    [of 3 "[(''A'', ''Dune'', Some ''epub'', 5), (''B'', ''Emma'', Some ''epub'', 1),
            (''C'', ''Ulysses'', Some ''pdf'', 5)]"]
  by (simp add: first_enqueues_def)

section \<open>The pool never runs more than its size\<close>

lemma active_iff:
  "b \<in> set (active_downloads q) \<longleftrightarrow>
     (\<exists>r. (b, r) \<in> set (jobs q) \<and> (status r = PROCESSING \<or> status r = DOWNLOADING))"
  by (force simp: active_downloads_def)

lemma jobs_modify_iff:
  "(k, r') \<in> set (jobs (modify b g q)) \<longleftrightarrow>
     (\<exists>r. (k, r) \<in> set (jobs q) \<and> r' = (if k = b then g r else r))"
  by (force simp: modify_def)

lemma active_update_status:
  assumes "b' \<in> set (active_downloads (update_status b st q))"
  shows "(b' = b \<and> (st = PROCESSING \<or> st = DOWNLOADING))
         \<or> (b' \<noteq> b \<and> b' \<in> set (active_downloads q))"
proof -
  from assms obtain r r' where r: "(b', r) \<in> set (jobs q)"
    and r': "r' = (if b' = b then r\<lparr>status := st\<rparr> else r)"
    and a: "status r' = PROCESSING \<or> status r' = DOWNLOADING"
    unfolding active_iff update_status_def jobs_modify_iff by blast
  show ?thesis
  proof (cases "b' = b")
    case True
    with r' a show ?thesis
      by simp
  next
    case False
    with r r' a show ?thesis
      by (auto simp: active_iff)
  qed
qed

lemma active_update_download_path:
  "b' \<in> set (active_downloads (update_download_path b p q)) \<Longrightarrow> b' \<in> set (active_downloads q)"
  by (auto simp: active_iff update_download_path_def jobs_modify_iff split: if_splits)

lemma active_update_progress:
  "b' \<in> set (active_downloads (update_progress b p q)) \<Longrightarrow> b' \<in> set (active_downloads q)"
  by (auto simp: active_iff update_progress_def jobs_modify_iff split: if_splits)

lemma active_update_download_progress:
  "b' \<in> set (active_downloads (update_download_progress b p q)) \<Longrightarrow> b' \<in> set (active_downloads q)"
proof -
  assume a: "b' \<in> set (active_downloads (update_download_progress b p q))"
  show ?thesis
  proof (cases "get_status_for_book q b = Some PROCESSING")
    case True
    then obtain r where "map_of (jobs q) b = Some r" "status r = PROCESSING"
      by (auto simp: get_status_for_book_def book_data_def)
    then have "b \<in> set (active_downloads q)"
      by (auto simp: active_iff dest: map_of_SomeD)
    with a True show ?thesis
      by (auto simp: update_download_progress_def dest!: active_update_progress
          active_update_status)
  next
    case False
    with a show ?thesis
      by (auto simp: update_download_progress_def dest!: active_update_progress)
  qed
qed

lemma active_add:
  "b' \<in> set (active_downloads (add b ttl fmt prio q)) \<Longrightarrow> b' \<in> set (active_downloads q)"
  by (auto simp: add_def active_iff jobs_modify_iff fresh_job_def
      split: option.splits if_splits)

lemma keys_add: "distinct (map fst (jobs q)) \<Longrightarrow> distinct (map fst (jobs (add b ttl fmt prio q)))"
  by (auto simp: add_def keys_modify book_data_def map_of_eq_None_iff split: option.splits)

lemma invariant_initial: "pool_invariant cfg initial"
  by (simp add: pool_invariant_def initial_def empty_queue_def active_downloads_def)

lemma invariant_enqueue:
  "pool_invariant cfg s \<Longrightarrow> pool_invariant cfg (step cfg (Enqueue b ttl fmt prio) s)"
  by (auto simp: pool_invariant_def covered_def keys_add dest!: active_add)

lemma invariant_reap: "pool_invariant cfg s \<Longrightarrow> pool_invariant cfg (step cfg Reap s)"
proof -
  assume inv: "pool_invariant cfg s"
  let ?af = "filter (\<lambda>x. worker s (fst x) \<noteq> Done) (active_futures s)"
  have len: "length ?af \<le> length (active_futures s)"
    by (rule length_filter_le)
  have cov: "covered (s\<lparr>active_futures := ?af\<rparr>) b" if "covered s b" for b
    using that by (auto simp: covered_def)
  have "distinct (map fst ?af)"
    using inv by (simp add: pool_invariant_def distinct_map_filter)
  moreover have "length ?af + (if pending s = None then 0 else 1)
                   \<le> MAX_CONCURRENT_DOWNLOADS cfg"
    using inv len by (simp add: pool_invariant_def del: length_filter_le)
  ultimately show ?thesis
    using inv cov by (simp add: pool_invariant_def)
qed

lemma invariant_get_next: "pool_invariant cfg s \<Longrightarrow> pool_invariant cfg (step cfg GetNext s)"
proof -
  assume inv: "pool_invariant cfg s"
  show ?thesis
  proof (cases "pending s = None
      \<and> length (active_futures s) < MAX_CONCURRENT_DOWNLOADS cfg")
    case False
    with inv show ?thesis
      by auto
  next
    case True
    show ?thesis
    proof (cases "get_next (store s)")
      case None
      with inv True show ?thesis
        by simp
    next
      case (Some a)
      obtain b q where a: "a = (b, q)"
        by (cases a)
      with Some have q: "q = update_status b PROCESSING (store s)"
        by (auto simp: get_next_def split: option.splits)
      have "covered (s\<lparr>store := q, pending := Some b\<rparr>) b'"
        if "b' \<in> set (active_downloads q)" for b'
      proof -
        from that q have "b' = b \<or> b' \<in> set (active_downloads (store s))"
          using active_update_status by blast
        with inv True show ?thesis
          by (auto simp: pool_invariant_def covered_def)
      qed
      with inv True Some a q show ?thesis
        by (simp add: pool_invariant_def update_status_def keys_modify)
    qed
  qed
qed

lemma invariant_submit: "pool_invariant cfg s \<Longrightarrow> pool_invariant cfg (step cfg Submit s)"
proof -
  assume inv: "pool_invariant cfg s"
  show ?thesis
  proof (cases "pending s")
    case None
    with inv show ?thesis
      by simp
  next
    case (Some b)
    let ?s' = "step cfg Submit s"
    have s': "?s' = s\<lparr>active_futures := active_futures s @ [(next_future s, b)],
                      worker := (worker s)(next_future s := Waiting),
                      next_future := Suc (next_future s), pending := None\<rparr>"
      using Some by simp
    have fresh: "fst x < next_future s" if "x \<in> set (active_futures s)" for x
      using inv that by (simp add: pool_invariant_def)
    have "covered ?s' b'" if "b' \<in> set (active_downloads (store s))" for b'
    proof -
      from inv that have "covered s b'"
        by (simp add: pool_invariant_def)
      then consider "b' = b" | f where "(f, b') \<in> set (active_futures s)" "worker s f \<noteq> Done"
        using Some by (auto simp: covered_def)
      then show ?thesis
      proof cases
        case 1
        then show ?thesis
          unfolding s' covered_def by auto
      next
        case 2
        with fresh [of "(f, b')"] have "f \<noteq> next_future s"
          by auto
        with 2 show ?thesis
          unfolding s' covered_def by auto
      qed
    qed
    moreover have "next_future s \<notin> fst ` set (active_futures s)"
      using fresh by fastforce
    ultimately show ?thesis
      using inv Some fresh unfolding s'
      by (auto simp: pool_invariant_def less_Suc_eq)
  qed
qed

lemma invariant_worker_write:
  assumes inv: "pool_invariant cfg s"
    and fb: "map_of (active_futures s) f = Some b"
    and keys: "map fst (jobs q') = map fst (jobs (store s))"
    and act: "\<And>b'. b' \<in> set (active_downloads q') \<Longrightarrow>
                (b' = b \<and> ws \<noteq> Done) \<or> (b' \<noteq> b \<and> b' \<in> set (active_downloads (store s)))"
  shows "pool_invariant cfg (s\<lparr>store := q', worker := (worker s)(f := ws)\<rparr>)"
proof -
  let ?s' = "s\<lparr>store := q', worker := (worker s)(f := ws)\<rparr>"
  from fb have in_af: "(f, b) \<in> set (active_futures s)"
    by (rule map_of_SomeD)
  from inv have dist: "distinct (map fst (active_futures s))"
    by (simp add: pool_invariant_def)
  have "covered ?s' b'" if "b' \<in> set (active_downloads q')" for b'
  proof -
    from act [OF that] show ?thesis
    proof
      assume "b' = b \<and> ws \<noteq> Done"
      with in_af show ?thesis
        by (auto simp: covered_def)
    next
      assume other: "b' \<noteq> b \<and> b' \<in> set (active_downloads (store s))"
      with inv have "covered s b'"
        by (simp add: pool_invariant_def)
      then consider "pending s = Some b'"
        | f' where "(f', b') \<in> set (active_futures s)" "worker s f' \<noteq> Done"
        by (auto simp: covered_def)
      then show ?thesis
      proof cases
        case 1
        then show ?thesis
          by (simp add: covered_def)
      next
        case 2
        have "f' \<noteq> f"
        proof
          assume "f' = f"
          with 2(1) in_af dist have "b' = b"
            by (auto dest: eq_key_imp_eq_value)
          with other show False
            by simp
        qed
        with 2 show ?thesis
          by (auto simp: covered_def)
      qed
    qed
  qed
  with inv keys show ?thesis
    by (simp add: pool_invariant_def)
qed

lemma invariant_worker_start:
  "pool_invariant cfg s \<Longrightarrow> pool_invariant cfg (step cfg (WorkerStart f) s)"
proof (cases "map_of (active_futures s) f")
  case None
  then show "pool_invariant cfg s \<Longrightarrow> ?thesis"
    by simp
next
  case (Some b)
  assume inv: "pool_invariant cfg s"
  have "pool_invariant cfg
          (s\<lparr>store := update_status b PROCESSING (store s),
             worker := (worker s)(f := Running)\<rparr>)"
    using inv Some
    by (rule invariant_worker_write)
      (auto simp: update_status_def keys_modify dest!: active_update_status [unfolded update_status_def])
  with inv Some show ?thesis
    by simp
qed

lemma invariant_worker_progress:
  "pool_invariant cfg s \<Longrightarrow> pool_invariant cfg (step cfg (WorkerProgress f p) s)"
proof (cases "map_of (active_futures s) f")
  case None
  then show "pool_invariant cfg s \<Longrightarrow> ?thesis"
    by simp
next
  case (Some b)
  assume inv: "pool_invariant cfg s"
  show ?thesis
  proof (cases "worker s f = Running")
    case False
    with inv Some show ?thesis
      by simp
  next
    case True
    have "pool_invariant cfg
            (s\<lparr>store := update_download_progress b p (store s),
               worker := (worker s)(f := Running)\<rparr>)"
      using inv Some
      by (rule invariant_worker_write)
        (auto simp: keys_update_download_progress dest: active_update_download_progress)
    moreover from True have "(worker s)(f := Running) = worker s"
      by auto
    ultimately show ?thesis
      using Some True by simp
  qed
qed

lemma invariant_worker_finish:
  "pool_invariant cfg s \<Longrightarrow> pool_invariant cfg (step cfg (WorkerFinish f returned cancelled) s)"
proof (cases "map_of (active_futures s) f")
  case None
  then show "pool_invariant cfg s \<Longrightarrow> ?thesis"
    by simp
next
  case (Some b)
  assume inv: "pool_invariant cfg s"
  let ?q' = "if cancelled then update_status b CANCELLED (store s)
             else case returned of
                    Some p \<Rightarrow> if p \<noteq> []
                              then update_status b AVAILABLE (update_download_path b p (store s))
                              else update_status b ERROR (store s)
                  | None \<Rightarrow> update_status b ERROR (store s)"
  have "pool_invariant cfg (s\<lparr>store := ?q', worker := (worker s)(f := Done)\<rparr>)"
    using inv Some
  proof (rule invariant_worker_write)
    show "map fst (jobs ?q') = map fst (jobs (store s))"
      by (simp add: update_status_def update_download_path_def keys_modify split: option.split)
    fix b' assume "b' \<in> set (active_downloads ?q')"
    then have "b' \<noteq> b \<and> b' \<in> set (active_downloads (store s))"
      by (auto split: if_splits option.splits
          dest!: active_update_status active_update_download_path)
    then show "(b' = b \<and> Done \<noteq> Done) \<or> (b' \<noteq> b \<and> b' \<in> set (active_downloads (store s)))"
      by simp
  qed
  with inv Some show ?thesis
    by simp
qed

lemma invariant_step: "pool_invariant cfg s \<Longrightarrow> pool_invariant cfg (step cfg ev s)"
  by (cases ev)
    (simp_all only: invariant_enqueue invariant_reap invariant_get_next invariant_submit
      invariant_worker_start invariant_worker_progress invariant_worker_finish)

lemma invariant_run: "pool_invariant cfg s \<Longrightarrow> pool_invariant cfg (run cfg evs s)"
  unfolding run_def by (induction evs arbitrary: s) (simp_all add: invariant_step)

lemma invariant_bound:
  assumes "pool_invariant cfg s"
  shows "length (active_downloads (store s)) \<le> MAX_CONCURRENT_DOWNLOADS cfg"
proof -
  let ?A = "set (active_downloads (store s))"
  let ?P = "case pending s of None \<Rightarrow> {} | Some b \<Rightarrow> {b}"
  from assms have "distinct (active_downloads (store s))"
    by (simp add: pool_invariant_def active_downloads_def distinct_map_filter)
  then have "length (active_downloads (store s)) = card ?A"
    by (simp add: distinct_card)
  also have "?A \<subseteq> ?P \<union> snd ` set (active_futures s)"
    using assms by (force simp: pool_invariant_def covered_def split: option.splits)
  then have "card ?A \<le> card (?P \<union> snd ` set (active_futures s))"
    by (intro card_mono) (auto split: option.splits)
  also have "\<dots> \<le> card ?P + card (snd ` set (active_futures s))"
    by (rule card_Un_le)
  also have "card (snd ` set (active_futures s)) \<le> length (active_futures s)"
    by (rule order.trans [OF card_image_le card_length]) simp
  also have "card ?P = (if pending s = None then 0 else 1)"
    by (simp split: option.splits)
  finally show ?thesis
    using assms by (simp add: pool_invariant_def)
qed

text \<open>
  C1. With a pool of \<open>N \<ge> 1\<close> workers, after any sequence of enqueues, coordinator steps
  (reap, get_next, submit) and worker steps, in any interleaving, at most \<open>N\<close> jobs are
  PROCESSING or DOWNLOADING, and the coordinator tracks at most \<open>N\<close> futures: a job is
  taken from the queue only while fewer than \<open>N\<close> futures are tracked, and every job that
  is PROCESSING or DOWNLOADING is the job just taken or the job of a tracked future whose
  worker has not finished.
\<close>

theorem at_most_max_concurrent_active:
  assumes "1 \<le> MAX_CONCURRENT_DOWNLOADS cfg"
  shows "length (active_downloads (store (run cfg evs initial))) \<le> MAX_CONCURRENT_DOWNLOADS cfg
         \<and> length (active_futures (run cfg evs initial)) \<le> MAX_CONCURRENT_DOWNLOADS cfg"
proof -
  have inv: "pool_invariant cfg (run cfg evs initial)"
    by (rule invariant_run) (rule invariant_initial)
  then have "length (active_futures (run cfg evs initial)) \<le> MAX_CONCURRENT_DOWNLOADS cfg"
    by (simp add: pool_invariant_def)
  with invariant_bound [OF inv] show ?thesis
    by simp
qed

theorem at_most_max_concurrent_active_witness:
  "1 \<le> MAX_CONCURRENT_DOWNLOADS example_cfg
   \<and> active_downloads (store (run example_cfg
        [Enqueue ''A'' ''Dune'' (Some ''epub'') 5, Enqueue ''B'' ''Emma'' (Some ''epub'') 1,
         Enqueue ''C'' ''Ulysses'' (Some ''pdf'') 5, Reap, GetNext, Submit, GetNext, Submit,
         GetNext, Submit, WorkerStart 0, WorkerProgress 0 (1 / 2), WorkerStart 1] initial))
       = [''A'', ''B'']
   \<and> length (active_downloads (store (run example_cfg
        [Enqueue ''A'' ''Dune'' (Some ''epub'') 5, Enqueue ''B'' ''Emma'' (Some ''epub'') 1,
         Enqueue ''C'' ''Ulysses'' (Some ''pdf'') 5, Reap, GetNext, Submit, GetNext, Submit,
         GetNext, Submit, WorkerStart 0, WorkerProgress 0 (1 / 2), WorkerStart 1] initial)))
       \<le> MAX_CONCURRENT_DOWNLOADS example_cfg"
proof -
  let ?evs = "[Enqueue ''A'' ''Dune'' (Some ''epub'') 5, Enqueue ''B'' ''Emma'' (Some ''epub'') 1,
         Enqueue ''C'' ''Ulysses'' (Some ''pdf'') 5, Reap, GetNext, Submit, GetNext, Submit,
         GetNext, Submit, WorkerStart 0, WorkerProgress 0 (1 / 2), WorkerStart 1]"
  have 1: "1 \<le> MAX_CONCURRENT_DOWNLOADS example_cfg"
    by (simp add: example_cfg_def)
  have 2: "active_downloads (store (run example_cfg ?evs initial)) = [''A'', ''B'']"
    by (simp add: run_def initial_def empty_queue_def example_cfg_def add_def book_data_def
        fresh_job_def get_next_def queued_def job_key_def update_status_def modify_def
        update_download_progress_def update_progress_def get_status_for_book_def
        active_downloads_def less_eq_prod_def)
  from at_most_max_concurrent_active [OF 1, of ?evs] 1 2 show ?thesis
    by simp
qed

section \<open>The download path and the status AVAILABLE\<close>

lemma without_status_update_status [simp]:
  "without_status b (update_status b st q) = without_status b q"
  by (auto simp: without_status_def update_status_def modify_def)

lemma without_status_update_progress [simp]:
  "without_status b (update_progress b p q) = without_status b q"
  by (auto simp: without_status_def update_progress_def modify_def)

lemma without_status_update_download_progress [simp]:
  "without_status b (update_download_progress b p q) = without_status b q"
  by (simp add: update_download_progress_def Let_def)




































end
